theory Spec2Isabelle
  imports Complex_Main "HOL-Library.Log_Nat" "HOL-Library.AList"
begin

section \<open>Python values used by preprocess.py\<close>

subsection \<open>Exceptions\<close>

text \<open>
  Every exception the program can meet is a value. The string carries the message or the
  offending path.
\<close>

datatype error =
    ZeroDivisionError
  | ValueError string
  | FileNotFoundError string
  | UnidentifiedImageError string
  | NotADirectoryError string
  | FileExistsError string
  | OSError string

subsection \<open>Floats\<close>

text \<open>
  A Python float is an IEEE-754 binary64 number. A finite float is represented by the
  rational it denotes; an arithmetic operation computes the exact rational result and rounds
  it to the nearest number with a 53-bit significand, ties to even (\<open>fl\<close>). The exponent
  range is not bounded: the quantities of this program are quotients, products and
  differences of image dimensions, far from overflow and from the subnormal range.

  \<open>expo a\<close> is the binary exponent of a positive rational: \<open>2^e \<le> a < 2^(e+1)\<close>.
  \<open>round_half_even\<close> is Python's \<open>round(x)\<close> on a float: nearest integer, ties to even.
\<close>

type_synonym pyfloat = rat

definition round_half_even :: "rat \<Rightarrow> int" where
  "round_half_even x =
     (let f = \<lfloor>x\<rfloor>; r = x - of_int f
      in if r < 1 / 2 then f else if 1 / 2 < r then f + 1 else if even f then f else f + 1)"

definition expo :: "rat \<Rightarrow> int" where
  "expo a = (if 1 \<le> a then bitlen \<lfloor>a\<rfloor> - 1 else - bitlen (\<lceil>1 / a\<rceil> - 1))"

definition fl :: "rat \<Rightarrow> pyfloat" where
  "fl x =
     (if x = 0 then 0
      else let a = \<bar>x\<bar>; u = 2 powi (expo a - 52)
           in sgn x * of_int (round_half_even (a / u)) * u)"

text \<open>The unit roundoff of binary64, the bound on the relative error of one rounding.\<close>

definition u53 :: rat where "u53 = 1 / 2 ^ 53"

text \<open>\<open>float(n)\<close> for an int, as done implicitly when an int meets a float.\<close>

definition float_of_int :: "int \<Rightarrow> pyfloat" where
  "float_of_int n = fl (of_int n)"

text \<open>\<open>a / b\<close> on two ints: true division, correctly rounded; raises on a zero divisor.\<close>

definition truediv :: "int \<Rightarrow> int \<Rightarrow> error + pyfloat" where
  "truediv a b = (if b = 0 then Inl ZeroDivisionError else Inr (fl (of_int a / of_int b)))"

definition fmul :: "pyfloat \<Rightarrow> pyfloat \<Rightarrow> pyfloat" where
  "fmul x y = fl (x * y)"

definition fadd :: "pyfloat \<Rightarrow> pyfloat \<Rightarrow> pyfloat" where
  "fadd x y = fl (x + y)"

definition fsub :: "pyfloat \<Rightarrow> pyfloat \<Rightarrow> pyfloat" where
  "fsub x y = fl (x - y)"

text \<open>Float division by a non-zero float constant (the only use is \<open>/ 2.0\<close>).\<close>

definition fdiv :: "pyfloat \<Rightarrow> pyfloat \<Rightarrow> pyfloat" where
  "fdiv x y = fl (x / y)"

subsection \<open>Images (PIL)\<close>

text \<open>
  An RGB image has a size and a pixel at every coordinate inside it. \<open>px\<close> is a total
  function; only its values inside the size are pixels of the image.
\<close>

type_synonym pixel = "nat \<times> nat \<times> nat"

record image =
  width :: int
  height :: int
  px :: "int \<Rightarrow> int \<Rightarrow> pixel"

datatype resample_filter = LANCZOS | BICUBIC

text \<open>
  The interpolation kernels are PIL's, not this program's: \<open>kernel\<close> is the parameter that
  gives the pixels of a resized image from the filter, the source image and the target size.
\<close>

type_synonym kernel = "resample_filter \<Rightarrow> image \<Rightarrow> int \<times> int \<Rightarrow> int \<Rightarrow> int \<Rightarrow> pixel"

text \<open>
  \<open>Image.resize(size, resample)\<close>: a copy when the size is already the requested one,
  a ValueError when a requested dimension is not positive, else an image of exactly the
  requested size.
\<close>

definition resize :: "kernel \<Rightarrow> image \<Rightarrow> int \<times> int \<Rightarrow> resample_filter \<Rightarrow> error + image" where
  "resize K img sz flt =
     (if (width img, height img) = sz then Inr img
      else if fst sz < 1 \<or> snd sz < 1 then Inl (ValueError ''height and width must be > 0'')
      else Inr \<lparr>width = fst sz, height = snd sz, px = K flt img sz\<rparr>)"

text \<open>
  \<open>Image.crop((left, upper, right, lower))\<close>: a ValueError when the box is inverted;
  else an image of the size of the box, whose pixels are those of the source where the box
  lies inside the source and black elsewhere.
\<close>

definition crop :: "image \<Rightarrow> int \<times> int \<times> int \<times> int \<Rightarrow> error + image" where
  "crop img box =
     (case box of (left, upper, right, lower) \<Rightarrow>
        if right < left then Inl (ValueError ''Coordinate 'right' is less than 'left' '')
        else if lower < upper then Inl (ValueError ''Coordinate 'lower' is less than 'upper' '')
        else Inr \<lparr>width = right - left, height = lower - upper,
                  px = (\<lambda>x y.
                     if 0 \<le> x \<and> x < right - left \<and> 0 \<le> y \<and> y < lower - upper
                        \<and> 0 \<le> x + left \<and> x + left < width img
                        \<and> 0 \<le> y + upper \<and> y + upper < height img
                     then px img (x + left) (y + upper) else (0, 0, 0))\<rparr>)"

text \<open>\<open>Image.copy()\<close>: an image with the same size and pixels.\<close>

definition copy :: "image \<Rightarrow> image" where
  "copy img = img"

subsection \<open>The module-wide random source\<close>

text \<open>
  \<open>random\<close> is seeded once and advanced by every draw. Its state is the infinite sequence
  of variates that the coming draws will consume; \<open>randint(a, b)\<close> consumes the first and
  reduces it into \<open>[a, b]\<close>, and raises on an empty range. Every sequence of results that
  the real generator can return is the behaviour of some such sequence.
\<close>

type_synonym rng = "nat \<Rightarrow> nat"

definition randint :: "int \<Rightarrow> int \<Rightarrow> rng \<Rightarrow> (error + int) \<times> rng" where
  "randint a b g =
     (if b < a then (Inl (ValueError ''empty range for randrange()''), g)
      else (Inr (a + int (g 0) mod (b - a + 1)), (\<lambda>n. g (Suc n))))"

section \<open>Constants\<close>

definition HR_PATCH :: int where "HR_PATCH = 384"
definition LR_PATCH :: int where "LR_PATCH = 96"
definition UPSCALE :: int where "UPSCALE = HR_PATCH div LR_PATCH"
definition PATCHES_PER_IMAGE :: int where "PATCHES_PER_IMAGE = 6"
definition MODE :: string where "MODE = ''generate''"
definition RANDOM_CROP :: bool where "RANDOM_CROP = True"
definition MIN_HR_DIM :: int where "MIN_HR_DIM = HR_PATCH"

section \<open>Geometry utilities\<close>

definition ensure_min_size :: "kernel \<Rightarrow> image \<Rightarrow> int \<Rightarrow> error + image" where
  "ensure_min_size K img min_size =
     (let w = width img; h = height img
      in if min_size \<le> min w h then Inr img
         else case truediv min_size (min w h) of
                Inl e \<Rightarrow> Inl e
              | Inr scale \<Rightarrow>
                  resize K img
                    (round_half_even (fmul (float_of_int w) scale),
                     round_half_even (fmul (float_of_int h) scale))
                    LANCZOS)"

definition center_crop :: "image \<Rightarrow> int \<Rightarrow> int \<Rightarrow> error + image \<times> (int \<times> int)" where
  "center_crop img crop_w crop_h =
     (let w = width img; h = height img;
          left = max 0 ((w - crop_w) div 2);
          top' = max 0 ((h - crop_h) div 2)
      in case crop img (left, top', left + crop_w, top' + crop_h) of
           Inl e \<Rightarrow> Inl e
         | Inr patch \<Rightarrow> Inr (patch, (left, top')))"

definition random_crop ::
  "image \<Rightarrow> int \<Rightarrow> int \<Rightarrow> rng \<Rightarrow> (error + image \<times> (int \<times> int)) \<times> rng" where
  "random_crop img crop_w crop_h g =
     (let w = width img; h = height img
      in if w = crop_w \<and> h = crop_h then (Inr (copy img, (0, 0)), g)
         else
           let max_left = max 0 (w - crop_w);
               max_top = max 0 (h - crop_h)
           in case randint 0 max_left g of
                (Inl e, g1) \<Rightarrow> (Inl e, g1)
              | (Inr left, g1) \<Rightarrow>
                  (case randint 0 max_top g1 of
                     (Inl e, g2) \<Rightarrow> (Inl e, g2)
                   | (Inr top', g2) \<Rightarrow>
                       (case crop img (left, top', left + crop_w, top' + crop_h) of
                          Inl e \<Rightarrow> (Inl e, g2)
                        | Inr patch \<Rightarrow> (Inr (patch, (left, top')), g2))))"

definition downsample :: "kernel \<Rightarrow> image \<Rightarrow> int \<times> int \<Rightarrow> error + image" where
  "downsample K img out_size = resize K img out_size BICUBIC"

section \<open>Paths and file names\<close>

text \<open>
  \<open>os.path.join(a, b)\<close> on a POSIX system: an absolute \<open>b\<close> replaces \<open>a\<close>; else the two are
  joined by one separator unless \<open>a\<close> is empty or already ends with one.
\<close>

definition path_join :: "string \<Rightarrow> string \<Rightarrow> string" where
  "path_join a b =
     (if take 1 b = ''/'' then b
      else if a = [] then b
      else if last a = CHR ''/'' then a @ b
      else a @ ''/'' @ b)"

text \<open>\<open>Path(p).name\<close>: the final component of the path.\<close>

definition path_name :: "string \<Rightarrow> string" where
  "path_name p =
     rev (takeWhile (\<lambda>c. c \<noteq> CHR ''/'') (dropWhile (\<lambda>c. c = CHR ''/'') (rev p)))"

text \<open>\<open>name.rfind('.')\<close>: the index of the last dot, \<open>-1\<close> when there is none.\<close>

definition rfind_dot :: "string \<Rightarrow> int" where
  "rfind_dot name =
     (if CHR ''.'' \<in> set name
      then int (length name) - 1 - int (length (takeWhile (\<lambda>c. c \<noteq> CHR ''.'') (rev name)))
      else - 1)"

text \<open>
  \<open>Path(p).stem\<close>: the final component without its last suffix; a leading or a trailing
  dot starts no suffix.
\<close>

definition stem :: "string \<Rightarrow> string" where
  "stem p =
     (let name = path_name p; i = rfind_dot name
      in if 0 < i \<and> i < int (length name) - 1 then take (nat i) name else name)"

text \<open>
  \<open>f"{i:03d}"\<close> for an index of \<open>range\<close>: decimal digits, zero-padded to three.
  \<open>digit_char\<close> is only applied to numbers below ten.
\<close>

definition digit_char :: "nat \<Rightarrow> char" where
  "digit_char d = ''0123456789'' ! d"

function decimal :: "nat \<Rightarrow> string" where
  "decimal n = (if n < 10 then [digit_char n] else decimal (n div 10) @ [digit_char (n mod 10)])"
  by pat_completeness auto
termination
  by (relation "measure id") auto

definition fmt_03d :: "nat \<Rightarrow> string" where
  "fmt_03d i = (let d = decimal i in replicate (3 - length d) CHR ''0'' @ d)"

section \<open>The world the program runs in\<close>

text \<open>
  What the process reads and changes: the files (a path holds a decodable image, an
  undecodable file, or nothing), the listing of each directory in the order the operating
  system enumerates it, the paths that cannot be written, the directories made, the images
  saved so far in order, the lines printed, and the state of the random source.
\<close>

datatype file_content = ImageFile image | CorruptFile

datatype message =
    Found nat
  | ModeGenerate
  | Progress nat nat
  | ErrorProcessing string error
  | Finished nat
  | OutputHR string
  | OutputLR string
  | WarnAspect string
  | WarnScale int pyfloat string

record world =
  fs :: "string \<Rightarrow> file_content option"
  entries :: "string \<Rightarrow> string list"
  unwritable :: "string \<Rightarrow> bool"
  dirs :: "string set"
  saved :: "(string \<times> image) list"
  stdout :: "message list"
  random :: rng

definition print :: "message \<Rightarrow> world \<Rightarrow> world" where
  "print m w = w\<lparr>stdout := stdout w @ [m]\<rparr>"

text \<open>
  \<open>os.makedirs(d, exist_ok=True)\<close> makes the directory and the missing directories above
  it; a directory that is already there is no error. It raises NotADirectoryError where a
  path above \<open>d\<close> is a file, FileExistsError where \<open>d\<close> itself is a file, and an OSError
  where \<open>d\<close> cannot be written (the directories above it are made by then). \<open>ancestors d\<close>
  are the paths above \<open>d\<close>: its prefixes that end before a separator.
\<close>

definition ancestors :: "string \<Rightarrow> string list" where
  "ancestors d = map (\<lambda>i. take i d) (filter (\<lambda>i. d ! i = CHR ''/'') [1 ..< length d])"

definition is_file :: "world \<Rightarrow> string \<Rightarrow> bool" where
  "is_file w p = (case fs w p of None \<Rightarrow> False | Some c \<Rightarrow> True)"

definition makedirs_error :: "world \<Rightarrow> string \<Rightarrow> error option" where
  "makedirs_error w d =
     (if list_ex (is_file w) (ancestors d) then Some (NotADirectoryError d)
      else if is_file w d then Some (FileExistsError d)
      else if unwritable w d then Some (OSError d)
      else None)"

definition makedirs :: "string \<Rightarrow> world \<Rightarrow> (error + unit) \<times> world" where
  "makedirs d w =
     (case makedirs_error w d of
        Some (OSError p) \<Rightarrow> (Inl (OSError p), w\<lparr>dirs := set (ancestors d) \<union> dirs w\<rparr>)
      | Some e \<Rightarrow> (Inl e, w)
      | None \<Rightarrow> (Inr (), w\<lparr>dirs := insert d (set (ancestors d) \<union> dirs w)\<rparr>))"

text \<open>\<open>Image.open(path).convert("RGB")\<close>\<close>

definition open_rgb :: "string \<Rightarrow> world \<Rightarrow> error + image" where
  "open_rgb path w =
     (case fs w path of
        None \<Rightarrow> Inl (FileNotFoundError path)
      | Some CorruptFile \<Rightarrow> Inl (UnidentifiedImageError path)
      | Some (ImageFile img) \<Rightarrow> Inr img)"

text \<open>
  \<open>img.save(path, "PNG")\<close>; it raises at the paths of \<open>unwritable\<close>, which stand for every
  reason a write can fail.
\<close>

definition save :: "string \<Rightarrow> image \<Rightarrow> world \<Rightarrow> (error + unit) \<times> world" where
  "save path img w =
     (if unwritable w path then (Inl (OSError path), w)
      else (Inr (), w\<lparr>fs := (fs w)(path \<mapsto> ImageFile img), saved := saved w @ [(path, img)]\<rparr>))"

section \<open>File discovery\<close>

text \<open>
  \<open>Path(folder).glob("*" + ext)\<close>: the entries of the folder whose name ends with the
  extension, in listing order, each as the path of the entry (\<open>str(fp)\<close>). The patterns
  of the program are \<open>"*"\<close> followed by one of \<open>exts\<close>; matching is case-sensitive.
\<close>

definition glob :: "world \<Rightarrow> string \<Rightarrow> string \<Rightarrow> string list" where
  "glob w folder ext =
     map (path_join folder)
       (filter (\<lambda>n. length ext \<le> length n \<and> drop (length n - length ext) n = ext)
          (entries w folder))"

definition exts :: "string list" where
  "exts = [''.jpg'', ''.jpeg'', ''.png'', ''.bmp'', ''.tiff'',
           ''.JPG'', ''.JPEG'', ''.PNG'', ''.BMP'', ''.TIFF'']"

text \<open>
  \<open>enumerate_files\<close> is the order of the two nested loops: pattern by pattern, and in
  listing order within a pattern. The result of \<open>get_all_image_files\<close> is a Python dict:
  an association list in insertion order, where storing under a key already present
  replaces the value in place (\<open>AList.update\<close>).
\<close>

definition enumerate_files :: "world \<Rightarrow> string \<Rightarrow> string list" where
  "enumerate_files w folder = concat (map (glob w folder) exts)"

definition get_all_image_files :: "world \<Rightarrow> string \<Rightarrow> (string \<times> string) list" where
  "get_all_image_files w folder =
     fold (\<lambda>fp files. AList.update (stem fp) fp files) (enumerate_files w folder) []"

section \<open>Single-image extractor, generate mode\<close>

text \<open>One turn of the loop of \<open>process_generate_mode\<close>, for patch index \<open>i\<close>.\<close>

definition generate_patch ::
  "kernel \<Rightarrow> image \<Rightarrow> string \<Rightarrow> string \<Rightarrow> string \<Rightarrow> bool \<Rightarrow> nat \<Rightarrow> world
     \<Rightarrow> (error + unit) \<times> world" where
  "generate_patch K img hr_path hr_out_dir lr_out_dir random_crop_enabled i w =
     (let cropped =
            (if random_crop_enabled then
               (if HR_PATCH < width img \<and> HR_PATCH < height img
                then random_crop img HR_PATCH HR_PATCH (random w)
                else (center_crop img HR_PATCH HR_PATCH, random w))
             else (center_crop img HR_PATCH HR_PATCH, random w))
      in case cropped of
           (Inl e, g) \<Rightarrow> (Inl e, w\<lparr>random := g\<rparr>)
         | (Inr (hr_patch, offset), g) \<Rightarrow>
             (case downsample K hr_patch (LR_PATCH, LR_PATCH) of
                Inl e \<Rightarrow> (Inl e, w\<lparr>random := g\<rparr>)
              | Inr lr_patch \<Rightarrow>
                  (let base = stem hr_path;
                       out_hr = path_join hr_out_dir (base @ ''_p'' @ fmt_03d i @ ''.png'');
                       out_lr = path_join lr_out_dir (base @ ''_p'' @ fmt_03d i @ ''.png'')
                   in case save out_hr hr_patch (w\<lparr>random := g\<rparr>) of
                        (Inl e, w1) \<Rightarrow> (Inl e, w1)
                      | (Inr u, w1) \<Rightarrow> save out_lr lr_patch w1)))"

text \<open>The loop over \<open>range(patches_per_image)\<close>; an exception ends it.\<close>

fun generate_patches ::
  "kernel \<Rightarrow> image \<Rightarrow> string \<Rightarrow> string \<Rightarrow> string \<Rightarrow> bool \<Rightarrow> nat list \<Rightarrow> world
     \<Rightarrow> (error + unit) \<times> world" where
  "generate_patches K img hr_path hr_out_dir lr_out_dir rc [] w = (Inr (), w)"
| "generate_patches K img hr_path hr_out_dir lr_out_dir rc (i # rest) w =
     (case generate_patch K img hr_path hr_out_dir lr_out_dir rc i w of
        (Inl e, w1) \<Rightarrow> (Inl e, w1)
      | (Inr u, w1) \<Rightarrow> generate_patches K img hr_path hr_out_dir lr_out_dir rc rest w1)"

definition process_generate_mode ::
  "kernel \<Rightarrow> string \<Rightarrow> string \<Rightarrow> string \<Rightarrow> int \<Rightarrow> bool \<Rightarrow> world \<Rightarrow> (error + unit) \<times> world" where
  "process_generate_mode K hr_path hr_out_dir lr_out_dir patches_per_image random_crop_enabled w =
     (case open_rgb hr_path w of
        Inl e \<Rightarrow> (Inl e, w)
      | Inr img0 \<Rightarrow>
          (case ensure_min_size K img0 MIN_HR_DIM of
             Inl e \<Rightarrow> (Inl e, w)
           | Inr img \<Rightarrow>
               generate_patches K img hr_path hr_out_dir lr_out_dir random_crop_enabled
                 [0 ..< nat patches_per_image] w))"

section \<open>Single-image extractor, paired mode\<close>

text \<open>One turn of the loop of \<open>process_paired_mode\<close>, for patch index \<open>i\<close>.\<close>

definition paired_patch ::
  "kernel \<Rightarrow> image \<Rightarrow> image \<Rightarrow> pyfloat \<Rightarrow> string \<Rightarrow> string \<Rightarrow> string \<Rightarrow> bool \<Rightarrow> nat \<Rightarrow> world
     \<Rightarrow> (error + unit) \<times> world" where
  "paired_patch K hr_img lr_img scale hr_path hr_out_dir lr_out_dir random_crop_enabled i w =
     (let hr_w = width hr_img; hr_h = height hr_img;
          lr_w = width lr_img; lr_h = height lr_img;
          cropped =
            (if random_crop_enabled \<and> LR_PATCH < lr_w \<and> LR_PATCH < lr_h
             then random_crop lr_img LR_PATCH LR_PATCH (random w)
             else (center_crop lr_img LR_PATCH LR_PATCH, random w))
      in case cropped of
           (Inl e, g) \<Rightarrow> (Inl e, w\<lparr>random := g\<rparr>)
         | (Inr (lr_patch, (l_left, l_top)), g) \<Rightarrow>
             (let hr_left0 = round_half_even (fmul (float_of_int l_left) scale);
                  hr_top0 = round_half_even (fmul (float_of_int l_top) scale);
                  hr_left = min (max 0 hr_left0) (hr_w - HR_PATCH);
                  hr_top = min (max 0 hr_top0) (hr_h - HR_PATCH)
              in case crop hr_img (hr_left, hr_top, hr_left + HR_PATCH, hr_top + HR_PATCH) of
                   Inl e \<Rightarrow> (Inl e, w\<lparr>random := g\<rparr>)
                 | Inr hr_patch \<Rightarrow>
                     (case resize K lr_patch (LR_PATCH, LR_PATCH) BICUBIC of
                        Inl e \<Rightarrow> (Inl e, w\<lparr>random := g\<rparr>)
                      | Inr lr_patch_resized \<Rightarrow>
                          (let base = stem hr_path;
                               out_hr = path_join hr_out_dir
                                          (base @ ''_paired_p'' @ fmt_03d i @ ''.png'');
                               out_lr = path_join lr_out_dir
                                          (base @ ''_paired_p'' @ fmt_03d i @ ''.png'')
                           in case save out_hr hr_patch (w\<lparr>random := g\<rparr>) of
                                (Inl e, w1) \<Rightarrow> (Inl e, w1)
                              | (Inr u, w1) \<Rightarrow> save out_lr lr_patch_resized w1))))"

fun paired_patches ::
  "kernel \<Rightarrow> image \<Rightarrow> image \<Rightarrow> pyfloat \<Rightarrow> string \<Rightarrow> string \<Rightarrow> string \<Rightarrow> bool \<Rightarrow> nat list \<Rightarrow> world
     \<Rightarrow> (error + unit) \<times> world" where
  "paired_patches K hr_img lr_img scale hr_path hr_out_dir lr_out_dir rc [] w = (Inr (), w)"
| "paired_patches K hr_img lr_img scale hr_path hr_out_dir lr_out_dir rc (i # rest) w =
     (case paired_patch K hr_img lr_img scale hr_path hr_out_dir lr_out_dir rc i w of
        (Inl e, w1) \<Rightarrow> (Inl e, w1)
      | (Inr u, w1) \<Rightarrow>
          paired_patches K hr_img lr_img scale hr_path hr_out_dir lr_out_dir rc rest w1)"

text \<open>
  The float literals \<open>0.1\<close>, \<open>0.5\<close> and \<open>2.0\<close> are the floats nearest to the decimal
  numbers; \<open>scale - UPSCALE\<close> converts the int to a float first.
\<close>

definition process_paired_mode ::
  "kernel \<Rightarrow> string \<Rightarrow> string \<Rightarrow> string \<Rightarrow> string \<Rightarrow> bool \<Rightarrow> world \<Rightarrow> (error + unit) \<times> world" where
  "process_paired_mode K hr_path lr_path hr_out_dir lr_out_dir random_crop_enabled w =
     (case open_rgb hr_path w of
        Inl e \<Rightarrow> (Inl e, w)
      | Inr hr_img0 \<Rightarrow>
     (case open_rgb lr_path w of
        Inl e \<Rightarrow> (Inl e, w)
      | Inr lr_img0 \<Rightarrow>
     (case ensure_min_size K lr_img0 LR_PATCH of
        Inl e \<Rightarrow> (Inl e, w)
      | Inr lr_img \<Rightarrow>
     (case ensure_min_size K hr_img0 HR_PATCH of
        Inl e \<Rightarrow> (Inl e, w)
      | Inr hr_img \<Rightarrow>
     (case truediv (width hr_img) (width lr_img) of
        Inl e \<Rightarrow> (Inl e, w)
      | Inr scale_w \<Rightarrow>
     (case truediv (height hr_img) (height lr_img) of
        Inl e \<Rightarrow> (Inl e, w)
      | Inr scale_h \<Rightarrow>
          if fl (1 / 10) < \<bar>fsub scale_w scale_h\<bar> then
            process_generate_mode K hr_path hr_out_dir lr_out_dir 1 random_crop_enabled
              (print (WarnAspect (stem hr_path)) w)
          else
            (let scale = fdiv (fadd scale_w scale_h) (fl 2)
             in if fl (1 / 2) < \<bar>fsub scale (float_of_int UPSCALE)\<bar> then
                  process_generate_mode K hr_path hr_out_dir lr_out_dir 1 random_crop_enabled
                    (print (WarnScale UPSCALE scale (stem hr_path)) w)
                else
                  paired_patches K hr_img lr_img scale hr_path hr_out_dir lr_out_dir
                    random_crop_enabled
                    [0 ..< (if random_crop_enabled then 3 else 1)] w)))))))"

section \<open>Batch driver\<close>

text \<open>
  The loop over \<open>hr_files.items()\<close> with its \<open>try\<close>/\<open>except Exception\<close>: a failing image
  is reported and the loop goes on from the world the failed call left behind. The two
  \<open>os.makedirs\<close> calls of \<open>batch_process\<close> come before the test of the mode and are outside
  the \<open>try\<close>: their exception ends the run.
\<close>

fun batch_loop ::
  "kernel \<Rightarrow> string \<Rightarrow> string \<Rightarrow> nat \<Rightarrow> (string \<times> string) list \<Rightarrow> nat \<Rightarrow> world \<Rightarrow> nat \<times> world" where
  "batch_loop K hr_out lr_out n_files [] processed w = (processed, w)"
| "batch_loop K hr_out lr_out n_files ((hr_name, hr_path) # rest) processed w =
     (case process_generate_mode K hr_path hr_out lr_out PATCHES_PER_IMAGE RANDOM_CROP w of
        (Inr u, w1) \<Rightarrow>
          (let processed1 = processed + 1;
               w2 = (if processed1 mod 20 = 0 then print (Progress processed1 n_files) w1 else w1)
           in batch_loop K hr_out lr_out n_files rest processed1 w2)
      | (Inl e, w1) \<Rightarrow>
          batch_loop K hr_out lr_out n_files rest processed (print (ErrorProcessing hr_path e) w1))"

definition batch_process ::
  "kernel \<Rightarrow> string \<Rightarrow> string \<Rightarrow> string \<Rightarrow> world \<Rightarrow> (error + unit) \<times> world" where
  "batch_process K hr_folder output_folder mode w =
     (let hr_out = path_join output_folder ''hr'';
          lr_out = path_join output_folder ''lr''
      in case makedirs hr_out w of
           (Inl e, w0) \<Rightarrow> (Inl e, w0)
         | (Inr u0, w0) \<Rightarrow>
             (case makedirs lr_out w0 of
                (Inl e, w1) \<Rightarrow> (Inl e, w1)
              | (Inr u1, w1) \<Rightarrow>
                  (let hr_files = get_all_image_files w1 hr_folder;
                       w2 = print (Found (length hr_files)) w1
                   in if mode = ''generate'' then
                        (case batch_loop K hr_out lr_out (length hr_files) hr_files 0
                                (print ModeGenerate w2) of
                           (processed, w3) \<Rightarrow>
                             (Inr (), print (OutputLR lr_out) (print (OutputHR hr_out)
                                        (print (Finished processed) w3))))
                      else (Inl (ValueError ''Unknown mode. Choose 'generate'.''), w2))))"

section \<open>Error isolation, stated apart from the driver\<close>

text \<open>
  What the specification asks of the batch: every file is handed to generate mode in turn,
  whatever became of the files before it. \<open>run_files\<close> does just that and records the
  outcome of each call; it has no counter, no report and no handler. \<open>driver_lines\<close> gives
  the lines that the driver is to print for a list of outcomes, from a count of \<open>c\<close>
  images processed so far out of \<open>n\<close>.
\<close>

fun run_files ::
  "kernel \<Rightarrow> string \<Rightarrow> string \<Rightarrow> string list \<Rightarrow> world
     \<Rightarrow> (string \<times> (error + unit)) list \<times> world" where
  "run_files K hr_out lr_out [] w = ([], w)"
| "run_files K hr_out lr_out (hr_path # rest) w =
     (case process_generate_mode K hr_path hr_out lr_out PATCHES_PER_IMAGE RANDOM_CROP w of
        (r, w1) \<Rightarrow>
          (case run_files K hr_out lr_out rest w1 of
             (outcomes, w2) \<Rightarrow> ((hr_path, r) # outcomes, w2)))"

definition succeeded :: "string \<times> (error + unit) \<Rightarrow> bool" where
  "succeeded outcome = (case snd outcome of Inl e \<Rightarrow> False | Inr u \<Rightarrow> True)"

definition failure_reports :: "(string \<times> (error + unit)) list \<Rightarrow> message list" where
  "failure_reports outcomes =
     concat (map (\<lambda>(hr_path, r). case r of Inl e \<Rightarrow> [ErrorProcessing hr_path e] | Inr u \<Rightarrow> [])
               outcomes)"

definition is_error_message :: "message \<Rightarrow> bool" where
  "is_error_message m = (case m of ErrorProcessing hr_path e \<Rightarrow> True | _ \<Rightarrow> False)"

fun driver_lines :: "nat \<Rightarrow> nat \<Rightarrow> (string \<times> (error + unit)) list \<Rightarrow> message list" where
  "driver_lines n c [] = []"
| "driver_lines n c ((hr_path, Inl e) # rest) = ErrorProcessing hr_path e # driver_lines n c rest"
| "driver_lines n c ((hr_path, Inr u) # rest) =
     (if (c + 1) mod 20 = 0 then [Progress (c + 1) n] else []) @ driver_lines n (c + 1) rest"

section \<open>Sample inputs\<close>

text \<open>A kernel and images of one colour, and a world around them, for concrete runs.\<close>

definition flat_kernel :: kernel where
  "flat_kernel flt img sz x y = px img 0 0"

definition solid_image :: "int \<Rightarrow> int \<Rightarrow> pixel \<Rightarrow> image" where
  "solid_image w h c = \<lparr>width = w, height = h, px = (\<lambda>x y. c)\<rparr>"

text \<open>
  A world with an input folder of three pictures, the second of them undecodable, a folder
  where two files share a stem, and a low-resolution companion of the first picture whose
  aspect differs from it.
\<close>

definition sample_world :: world where
  "sample_world =
     \<lparr>fs = [''in/a.jpg'' \<mapsto> ImageFile (solid_image 500 500 (1, 2, 3)),
             ''in/b.jpg'' \<mapsto> CorruptFile,
             ''in/c.jpg'' \<mapsto> ImageFile (solid_image 200 300 (4, 5, 6)),
             ''low/a.jpg'' \<mapsto> ImageFile (solid_image 200 100 (7, 8, 9))],
      entries = (\<lambda>d. if d = ''in'' then [''a.jpg'', ''b.jpg'', ''c.jpg'', ''notes.txt'']
                     else if d = ''mix'' then [''x.png'', ''x.jpg'', ''y.png'']
                     else []),
      unwritable = (\<lambda>p. False),
      dirs = {},
      saved = [],
      stdout = [],
      random = (\<lambda>n. 7 * n + 3)\<rparr>"

text \<open>The same world with a regular file where the output folder is to be.\<close>

definition blocked_world :: world where
  "blocked_world = sample_world\<lparr>fs := (fs sample_world)(''out'' \<mapsto> CorruptFile)\<rparr>"

text \<open>The size of the patch and the offset that a crop function returned.\<close>

definition crop_geometry :: "error + image \<times> (int \<times> int) \<Rightarrow> error + (int \<times> int) \<times> (int \<times> int)" where
  "crop_geometry r =
     (case r of Inl e \<Rightarrow> Inl e
      | Inr (patch, offset) \<Rightarrow> Inr ((width patch, height patch), offset))"

section \<open>Rounding\<close>

text \<open>
  \<open>round_half_even\<close> returns an integer within one half of its argument, the exponent of
  \<open>expo\<close> brackets its argument, and so one rounding \<open>fl\<close> changes a number by at most the
  unit roundoff, relatively.
\<close>

lemma rhe_err: "\<bar>of_int (round_half_even x) - x\<bar> \<le> 1 / 2"
proof -
  have lo: "of_int \<lfloor>x\<rfloor> \<le> x" and hi: "x < of_int \<lfloor>x\<rfloor> + 1"
    by linarith+
  show ?thesis
    unfolding round_half_even_def Let_def
    using lo hi by (simp add: abs_le_iff)
qed

lemma rhe_near:
  assumes "\<bar>x - of_int n\<bar> < 1 / 2"
  shows "round_half_even x = n"
proof -
  have a: "\<bar>of_int (round_half_even x) - x\<bar> \<le> 1 / 2" by (rule rhe_err)
  have "\<bar>(of_int (round_half_even x) :: rat) - of_int n\<bar> < 1"
    using a assms by linarith
  then have "\<bar>round_half_even x - n\<bar> < 1"
    by (metis of_int_diff of_int_abs of_int_less_1_iff)
  then show ?thesis by linarith
qed

lemma expo_lower:
  assumes "0 < a"
  shows "2 powi expo a \<le> a"
proof (cases "1 \<le> a")
  case True
  then have f: "0 < \<lfloor>a\<rfloor>" by simp
  from bitlen_bounds[OF f] have "2 ^ nat (bitlen \<lfloor>a\<rfloor> - 1) \<le> \<lfloor>a\<rfloor>" by simp
  then have "(of_int (2 ^ nat (bitlen \<lfloor>a\<rfloor> - 1)) :: rat) \<le> of_int \<lfloor>a\<rfloor>"
    by (simp only: of_int_le_iff)
  also have "\<dots> \<le> a" by simp
  finally have "(2::rat) ^ nat (bitlen \<lfloor>a\<rfloor> - 1) \<le> a" by simp
  moreover have "1 \<le> bitlen \<lfloor>a\<rfloor>" using f by (simp add: bitlen_alt_def)
  ultimately show ?thesis using True by (simp add: expo_def power_int_def)
next
  case False
  let ?c = "\<lceil>1 / a\<rceil>"
  let ?k = "bitlen (?c - 1)"
  have "1 < 1 / a" using False assms by simp
  then have c2: "2 \<le> ?c" by (simp add: le_ceiling_iff)
  then have f: "0 < ?c - 1" by simp
  from bitlen_bounds[OF f] have "?c - 1 < 2 ^ nat ?k" by simp
  then have "?c \<le> 2 ^ nat ?k" by simp
  then have "(of_int ?c :: rat) \<le> 2 ^ nat ?k"
    by (simp only: of_int_le_numeral_power_cancel_iff)
  moreover have "1 / a \<le> of_int ?c" by (rule le_of_int_ceiling)
  ultimately have "1 / a \<le> 2 ^ nat ?k" by (rule order_trans[rotated])
  then have "1 \<le> 2 ^ nat ?k * a" using assms by (simp add: field_simps)
  then have "1 / 2 ^ nat ?k \<le> a" by (simp add: field_simps)
  moreover have "0 \<le> ?k" by (rule bitlen_nonneg)
  then have "(2::rat) powi (- ?k) = 1 / 2 ^ nat ?k"
    by (simp add: power_int_minus power_int_def field_simps)
  ultimately show ?thesis using False
    by (simp add: expo_def)
qed

lemma expo_upper:
  assumes "0 < a"
  shows "a < 2 powi (expo a + 1)"
proof (cases "1 \<le> a")
  case True
  then have f: "0 < \<lfloor>a\<rfloor>" by simp
  have b1: "1 \<le> bitlen \<lfloor>a\<rfloor>" using f by (simp add: bitlen_alt_def)
  from bitlen_bounds[OF f] have "\<lfloor>a\<rfloor> < 2 ^ nat (bitlen \<lfloor>a\<rfloor>)" by simp
  then have "\<lfloor>a\<rfloor> + 1 \<le> 2 ^ nat (bitlen \<lfloor>a\<rfloor>)" by simp
  then have "(of_int (\<lfloor>a\<rfloor> + 1) :: rat) \<le> 2 ^ nat (bitlen \<lfloor>a\<rfloor>)"
    by (simp only: of_int_le_numeral_power_cancel_iff)
  moreover have "a < of_int (\<lfloor>a\<rfloor> + 1)" by linarith
  ultimately have "a < 2 ^ nat (bitlen \<lfloor>a\<rfloor>)" by (rule less_le_trans[rotated])
  then show ?thesis using True b1 by (simp add: expo_def power_int_def)
next
  case False
  let ?c = "\<lceil>1 / a\<rceil>"
  let ?k = "bitlen (?c - 1)"
  have "1 < 1 / a" using False assms by simp
  then have c2: "2 \<le> ?c" by (simp add: le_ceiling_iff)
  then have f: "0 < ?c - 1" by simp
  have k1: "1 \<le> ?k" using f by (simp add: bitlen_alt_def)
  from bitlen_bounds[OF f] have "2 ^ nat (?k - 1) \<le> ?c - 1" by simp
  then have "(2::rat) ^ nat (?k - 1) \<le> of_int (?c - 1)"
    by (simp only: numeral_power_le_of_int_cancel_iff)
  moreover have "of_int (?c - 1) < 1 / a" using of_int_ceiling_diff_one_le[of "1 / a"]
    by linarith
  ultimately have "2 ^ nat (?k - 1) < 1 / a" by (rule le_less_trans)
  then have "a * 2 ^ nat (?k - 1) < 1" using assms by (simp add: field_simps)
  then have "a < 1 / 2 ^ nat (?k - 1)" by (simp add: field_simps)
  moreover have "(2::rat) powi (- ?k + 1) = 1 / 2 ^ nat (?k - 1)"
  proof -
    have "- ?k + 1 = - (?k - 1)" by simp
    then show ?thesis using k1
      by (simp only: power_int_minus) (simp add: power_int_def field_simps)
  qed
  ultimately show ?thesis using False by (simp add: expo_def)
qed

lemma fl_err: "\<bar>fl x - x\<bar> \<le> \<bar>x\<bar> / 2 ^ 53"
proof (cases "x = 0")
  case True
  then show ?thesis by (simp add: fl_def)
next
  case False
  define a where "a = \<bar>x\<bar>"
  define u :: rat where "u = 2 powi (expo a - 52)"
  define n where "n = round_half_even (a / u)"
  have apos: "0 < a" using False by (simp add: a_def)
  have upos: "0 < u" by (simp add: u_def)
  have flx: "fl x = sgn x * of_int n * u"
    using False by (simp add: fl_def Let_def a_def u_def n_def)
  have xa: "x = sgn x * a" by (simp add: a_def sgn_mult_abs)
  have "fl x - x = sgn x * (of_int n * u - a)"
    by (subst xa) (simp add: flx algebra_simps)
  then have "\<bar>fl x - x\<bar> = \<bar>of_int n * u - a\<bar>"
    using False by (simp add: abs_mult abs_sgn_eq)
  also have "of_int n * u - a = (of_int n - a / u) * u"
    using upos by (simp add: field_simps)
  also have "\<bar>(of_int n - a / u) * u\<bar> = \<bar>of_int n - a / u\<bar> * u"
    using upos by (simp add: abs_mult)
  also have "\<dots> \<le> (1 / 2) * u"
    using rhe_err[of "a / u"] upos unfolding n_def by (intro mult_right_mono) simp_all
  also have "u = 2 powi expo a / 2 ^ 52"
    by (simp add: u_def power_int_diff)
  also have "(1 / 2) * (2 powi expo a / 2 ^ 52) \<le> (1 / 2) * (a / 2 ^ 52)"
    using expo_lower[OF apos] by (simp add: divide_right_mono)
  finally show ?thesis by (simp add: a_def)
qed

lemma fl_bounds:
  assumes "0 \<le> x"
  shows "x * (1 - u53) \<le> fl x" and "fl x \<le> x * (1 + u53)"
proof -
  have "\<bar>fl x - x\<bar> \<le> x * u53" using fl_err[of x] assms by (simp add: u53_def)
  then show "x * (1 - u53) \<le> fl x" and "fl x \<le> x * (1 + u53)"
    by (simp_all add: algebra_simps)
qed

lemma fl_nonneg: "0 \<le> x \<Longrightarrow> 0 \<le> fl x"
proof -
  assume a: "0 \<le> x"
  have "0 \<le> x * (1 - u53)" using a by (simp add: u53_def)
  then show ?thesis using fl_bounds(1)[OF a] by linarith
qed

lemma scaled_bounds:
  fixes d s m :: int
  assumes "0 < d" "0 < m" "0 < s"
  defines "E \<equiv> (of_int d * of_int s / of_int m :: rat)"
  defines "V \<equiv> fmul (float_of_int d) (fl (of_int s / of_int m))"
  shows "E * (1 - u53) ^ 3 \<le> V" and "V \<le> E * (1 + u53) ^ 3"
proof -
  define a :: rat where "a = of_int d"
  define b :: rat where "b = of_int s / of_int m"
  define A where "A = fl a"
  define B where "B = fl b"
  have a0: "0 \<le> a" and b0: "0 \<le> b" using assms by (simp_all add: a_def b_def)
  have A0: "0 \<le> A" and B0: "0 \<le> B" using a0 b0 by (simp_all add: fl_nonneg A_def B_def)
  have AB0: "0 \<le> A * B" using A0 B0 by simp
  have um: "0 \<le> 1 - u53" and up: "0 \<le> 1 + u53" by (simp_all add: u53_def)
  have E: "E = a * b" by (simp add: E_def a_def b_def)
  have V: "V = fl (A * B)" by (simp add: V_def fmul_def float_of_int_def A_def B_def a_def b_def)
  have lo1: "(a * (1 - u53)) * (b * (1 - u53)) \<le> A * B"
    unfolding A_def B_def
    by (intro mult_mono[OF fl_bounds(1)[OF a0] fl_bounds(1)[OF b0] A0[unfolded A_def]]
          mult_nonneg_nonneg b0 um)
  have hi1: "A * B \<le> (a * (1 + u53)) * (b * (1 + u53))"
    unfolding A_def B_def
    by (intro mult_mono[OF fl_bounds(2)[OF a0] fl_bounds(2)[OF b0] _ B0[unfolded B_def]]
          mult_nonneg_nonneg a0 up)
  have "E * (1 - u53) ^ 3 = ((a * (1 - u53)) * (b * (1 - u53))) * (1 - u53)"
    unfolding E power3_eq_cube by (simp only: mult_ac)
  also have "\<dots> \<le> (A * B) * (1 - u53)"
    using lo1 um by (rule mult_right_mono)
  also have "\<dots> \<le> V" unfolding V using fl_bounds(1)[OF AB0] .
  finally show "E * (1 - u53) ^ 3 \<le> V" .
  have "V \<le> (A * B) * (1 + u53)" unfolding V using fl_bounds(2)[OF AB0] .
  also have "\<dots> \<le> ((a * (1 + u53)) * (b * (1 + u53))) * (1 + u53)"
    using hi1 up by (rule mult_right_mono)
  also have "\<dots> = E * (1 + u53) ^ 3"
    unfolding E power3_eq_cube by (simp only: mult_ac)
  finally show "V \<le> E * (1 + u53) ^ 3" .
qed

lemma cube_bounds: "1 - 4 * u53 \<le> (1 - u53) ^ 3" "(1 + u53) ^ 3 \<le> 1 + 4 * u53"
  by (simp_all add: u53_def power3_eq_cube)

lemma scaled_err:
  fixes d s m :: int
  assumes "0 < d" "0 < m" "0 < s"
  shows "\<bar>fmul (float_of_int d) (fl (of_int s / of_int m)) - of_int d * of_int s / of_int m\<bar>
           \<le> (of_int d * of_int s / of_int m) / 2 ^ 51"
proof -
  define E where "E = (of_int d * of_int s / of_int m :: rat)"
  define V where "V = fmul (float_of_int d) (fl (of_int s / of_int m))"
  have E0: "0 \<le> E" using assms by (simp add: E_def)
  have "E * (1 - 4 * u53) \<le> E * (1 - u53) ^ 3"
    using cube_bounds(1) E0 by (rule mult_left_mono)
  then have lo: "E * (1 - 4 * u53) \<le> V"
    using scaled_bounds(1)[OF assms] unfolding E_def V_def by linarith
  have "E * (1 + u53) ^ 3 \<le> E * (1 + 4 * u53)"
    using cube_bounds(2) E0 by (rule mult_left_mono)
  then have hi: "V \<le> E * (1 + 4 * u53)"
    using scaled_bounds(2)[OF assms] unfolding E_def V_def by linarith
  define c where "c = E / 2 ^ 51"
  have e: "E * (4 * u53) = c" by (simp add: u53_def c_def)
  have "E * (1 - 4 * u53) = E - E * (4 * u53)" "E * (1 + 4 * u53) = E + E * (4 * u53)"
    by (simp_all only: right_diff_distrib distrib_left mult_1_right)
  then have "E - c \<le> V" "V \<le> E + c"
    using lo hi unfolding e by (simp_all only:)
  then have "\<bar>V - E\<bar> \<le> c" by linarith
  then show ?thesis unfolding c_def E_def V_def .
qed

lemma scaled_min_dim:
  fixes s m :: int
  assumes m: "0 < m" and ms: "m < s" and s: "s < 2 ^ 50"
  shows "round_half_even (fmul (float_of_int m) (fl (of_int s / of_int m))) = s"
proof -
  have s0: "0 < s" using m ms by simp
  have E: "(of_int m * of_int s / of_int m :: rat) = of_int s" using m by simp
  have "(of_int s :: rat) < 2 ^ 50" using s by (simp only: of_int_less_numeral_power_cancel_iff)
  then have "(of_int s :: rat) / 2 ^ 51 < 1 / 2" by simp
  then have "\<bar>fmul (float_of_int m) (fl (of_int s / of_int m)) - of_int s\<bar> < 1 / 2"
    using scaled_err[OF m m s0] unfolding E by linarith
  then show ?thesis by (rule rhe_near)
qed

lemma scaled_dim_close:
  fixes d s m :: int
  assumes d: "0 < d" and m: "0 < m" and s0: "0 < s" and ds: "d * s < 2 ^ 50"
  shows "\<bar>of_int (round_half_even (fmul (float_of_int d) (fl (of_int s / of_int m))))
            - of_int d * of_int s / of_int m\<bar> \<le> (1 :: rat)"
proof -
  define E where "E = (of_int d * of_int s / of_int m :: rat)"
  define V where "V = fmul (float_of_int d) (fl (of_int s / of_int m))"
  have "(of_int (d * s) :: rat) < 2 ^ 50"
    using ds by (simp only: of_int_less_numeral_power_cancel_iff)
  then have p: "(of_int d * of_int s :: rat) < 2 ^ 50" by simp
  have "(1 :: rat) \<le> of_int m" using m by simp
  then have "E \<le> of_int d * of_int s"
    unfolding E_def using d s0 by (simp add: field_simps mult_left_mono)
  then have "E / 2 ^ 51 \<le> 1 / 2" using p by simp
  then have "\<bar>V - E\<bar> \<le> 1 / 2"
    using scaled_err[OF d m s0] unfolding E_def V_def by linarith
  moreover have "\<bar>of_int (round_half_even V) - V\<bar> \<le> 1 / 2" by (rule rhe_err)
  ultimately have "\<bar>of_int (round_half_even V) - E\<bar> \<le> 1" by linarith
  then show ?thesis unfolding E_def V_def .
qed

lemma scaled_dim_ge:
  fixes d s m :: int
  assumes m: "0 < m" and md: "m \<le> d" and ms: "m < s" and ds: "d * s < 2 ^ 50"
  shows "s \<le> round_half_even (fmul (float_of_int d) (fl (of_int s / of_int m)))"
proof (cases "d = m")
  case True
  have "s \<le> d * s" using m md ms by (simp add: mult_le_cancel_right1)
  then have "s < 2 ^ 50" using ds by linarith
  then show ?thesis using scaled_min_dim[OF m ms] True by simp
next
  case False
  then have d1: "m + 1 \<le> d" using md by simp
  have d: "0 < d" and s0: "0 < s" using m md ms by simp_all
  define E where "E = (of_int d * of_int s / of_int m :: rat)"
  define V where "V = fmul (float_of_int d) (fl (of_int s / of_int m))"
  have "(of_int (d * s) :: rat) < 2 ^ 50"
    using ds by (simp only: of_int_less_numeral_power_cancel_iff)
  then have p: "(of_int d * of_int s :: rat) < 2 ^ 50" by simp
  have "(1 :: rat) \<le> of_int m" using m by simp
  then have "E \<le> of_int d * of_int s"
    unfolding E_def using d s0 by (simp add: field_simps mult_left_mono)
  then have "E / 2 ^ 51 \<le> 1 / 2" using p by simp
  then have VE: "E - 1 / 2 \<le> V"
    using scaled_err[OF d m s0] unfolding E_def V_def by linarith
  have "(of_int (m + 1) :: rat) \<le> of_int d" using d1 by (simp only: of_int_le_iff)
  then have "(of_int m + 1) * of_int s \<le> (of_int d * of_int s :: rat)"
    using s0 by (simp add: mult_right_mono)
  then have "(of_int m + 1) * of_int s / of_int m \<le> E"
    unfolding E_def using m by (simp add: divide_right_mono)
  moreover have "(of_int m + 1) * of_int s / of_int m = (of_int s + of_int s / of_int m :: rat)"
    using m by (simp add: field_simps)
  moreover have "(1 :: rat) < of_int s / of_int m" using m ms by simp
  ultimately have "of_int s + 1 < E" by linarith
  then have "of_int s + 1 / 2 < V" using VE by linarith
  moreover have "\<bar>of_int (round_half_even V) - V\<bar> \<le> 1 / 2" by (rule rhe_err)
  ultimately have "(of_int s :: rat) < of_int (round_half_even V)" by linarith
  then have "s < round_half_even V" by (simp only: of_int_less_iff)
  then show ?thesis unfolding V_def by simp
qed

lemma resize_size:
  assumes "1 \<le> fst sz" "1 \<le> snd sz"
  shows "\<exists>r. resize K img sz flt = Inr r \<and> width r = fst sz \<and> height r = snd sz"
  using assms by (cases sz) (auto simp: resize_def)

subsection \<open>Checks of the float model\<close>

lemma round_half_even_of_int: "round_half_even (of_int k) = k"
  by (rule rhe_near) simp

text \<open>Integers below \<open>2^53\<close> are floats: converting an image dimension loses nothing.\<close>

lemma float_of_int_exact:
  assumes "\<bar>n\<bar> < 2 ^ 53"
  shows "float_of_int n = of_int n"
proof (cases "n = 0")
  case True
  then show ?thesis by (simp add: float_of_int_def fl_def)
next
  case False
  define a :: rat where "a = \<bar>of_int n\<bar>"
  define e where "e = expo a"
  have a_int: "a = of_int \<bar>n\<bar>" by (simp add: a_def)
  have a1: "1 \<le> a" using False unfolding a_int by (simp add: Ints_nonzero_abs_ge1)
  then have apos: "0 < a" by simp
  have "(of_int \<bar>n\<bar> :: rat) < 2 ^ 53"
    using assms by (simp only: of_int_less_numeral_power_cancel_iff)
  then have ab: "a < 2 powi 53" unfolding a_int by simp
  have "e < 53"
  proof (rule ccontr)
    assume "\<not> e < 53"
    then have "53 \<le> e" by simp
    then have "(2 :: rat) powi 53 \<le> 2 powi e" by (intro power_int_increasing) simp_all
    also have "\<dots> \<le> a" unfolding e_def by (rule expo_lower[OF apos])
    finally show False using ab by simp
  qed
  define k where "k = nat (52 - e)"
  have u: "(2 :: rat) powi (e - 52) = 1 / 2 ^ k"
  proof -
    have "e - 52 = - int k" using \<open>e < 53\<close> by (simp add: k_def)
    then show ?thesis by (simp add: power_int_minus_divide)
  qed
  have q: "a / (1 / 2 ^ k) = of_int (\<bar>n\<bar> * 2 ^ k)"
    unfolding a_int by simp
  have "fl (of_int n) = sgn (of_int n) * of_int (round_half_even (a / (2 powi (e - 52)))) * 2 powi (e - 52)"
    using False by (simp add: fl_def Let_def a_def e_def)
  also have "\<dots> = sgn (of_int n) * of_int (\<bar>n\<bar> * 2 ^ k) * (1 / 2 ^ k)"
    unfolding u q round_half_even_of_int ..
  also have "\<dots> = sgn (of_int n) * \<bar>of_int n\<bar>" by simp
  also have "\<dots> = of_int n" by (rule sgn_mult_abs)
  finally show ?thesis by (simp add: float_of_int_def)
qed

text \<open>The literal \<open>0.1\<close>, and the upscaling of a 200 x 300 image to 384 x 576.\<close>

lemma fl_tenth: "fl (1 / 10) = 3602879701896397 / 36028797018963968"
  by code_simp

lemma ensure_min_size_sample:
  "map_sum id (\<lambda>i. (width i, height i))
     (ensure_min_size flat_kernel (solid_image 200 300 (0, 0, 0)) 384) = Inr (384, 576)"
  by code_simp

section \<open>Crops\<close>

lemma crop_ok:
  assumes "left \<le> right" "upper \<le> lower"
  shows "\<exists>p. crop img (left, upper, right, lower) = Inr p
           \<and> width p = right - left \<and> height p = lower - upper
           \<and> (\<forall>x y. px p x y =
                 (if 0 \<le> x \<and> x < right - left \<and> 0 \<le> y \<and> y < lower - upper
                     \<and> 0 \<le> x + left \<and> x + left < width img
                     \<and> 0 \<le> y + upper \<and> y + upper < height img
                  then px img (x + left) (y + upper) else (0, 0, 0)))"
  using assms by (simp add: crop_def)

lemma center_crop_ok:
  assumes "0 \<le> crop_w" "0 \<le> crop_h"
  shows "\<exists>patch. center_crop img crop_w crop_h
             = Inr (patch, (max 0 ((width img - crop_w) div 2), max 0 ((height img - crop_h) div 2)))
           \<and> width patch = crop_w \<and> height patch = crop_h"
proof -
  let ?l = "max 0 ((width img - crop_w) div 2)" and ?t = "max 0 ((height img - crop_h) div 2)"
  have "?l \<le> ?l + crop_w" "?t \<le> ?t + crop_h" using assms by simp_all
  from crop_ok[OF this, of img] obtain p where
    "crop img (?l, ?t, ?l + crop_w, ?t + crop_h) = Inr p" "width p = crop_w" "height p = crop_h"
    by auto
  then show ?thesis by (simp add: center_crop_def Let_def)
qed

lemma randint_ok:
  assumes "a \<le> b"
  shows "\<exists>n. randint a b g = (Inr n, (\<lambda>k. g (Suc k))) \<and> a \<le> n \<and> n \<le> b"
proof -
  have pos: "0 < b - a + 1" using assms by simp
  have "0 \<le> int (g 0) mod (b - a + 1)" "int (g 0) mod (b - a + 1) < b - a + 1"
    by (rule pos_mod_sign[OF pos], rule pos_mod_bound[OF pos])
  then have "a \<le> a + int (g 0) mod (b - a + 1)" "a + int (g 0) mod (b - a + 1) \<le> b"
    by linarith+
  moreover have "randint a b g = (Inr (a + int (g 0) mod (b - a + 1)), (\<lambda>k. g (Suc k)))"
    using assms by (simp add: randint_def)
  ultimately show ?thesis by blast
qed

lemma random_crop_ok:
  assumes "0 \<le> crop_w" "0 \<le> crop_h"
  shows "\<exists>patch left top' g'. random_crop img crop_w crop_h g = (Inr (patch, (left, top')), g')
           \<and> 0 \<le> left \<and> left \<le> max 0 (width img - crop_w)
           \<and> 0 \<le> top' \<and> top' \<le> max 0 (height img - crop_h)
           \<and> width patch = crop_w \<and> height patch = crop_h"
proof (cases "width img = crop_w \<and> height img = crop_h")
  case True
  then show ?thesis by (simp add: random_crop_def copy_def)
next
  case False
  let ?g1 = "\<lambda>k. g (Suc k)"
  have "0 \<le> max 0 (width img - crop_w)" by simp
  from randint_ok[OF this, of g] obtain l where
    l: "randint 0 (max 0 (width img - crop_w)) g = (Inr l, ?g1)"
       "0 \<le> l" "l \<le> max 0 (width img - crop_w)" by auto
  have "0 \<le> max 0 (height img - crop_h)" by simp
  from randint_ok[OF this, of ?g1] obtain t where
    t: "randint 0 (max 0 (height img - crop_h)) ?g1 = (Inr t, (\<lambda>k. ?g1 (Suc k)))"
       "0 \<le> t" "t \<le> max 0 (height img - crop_h)" by auto
  have "l \<le> l + crop_w" "t \<le> t + crop_h" using assms by simp_all
  from crop_ok[OF this, of img] obtain p where
    p: "crop img (l, t, l + crop_w, t + crop_h) = Inr p" "width p = crop_w" "height p = crop_h"
    by auto
  have "random_crop img crop_w crop_h g = (Inr (p, (l, t)), (\<lambda>k. ?g1 (Suc k)))"
    unfolding random_crop_def Let_def using False l(1) t(1) p(1) by auto
  then show ?thesis using l(2,3) t(2,3) p(2,3) by blast
qed

lemma crop_result:
  assumes "crop img (left, upper, right, lower) = Inr p"
  shows "left \<le> right" and "upper \<le> lower"
    and "p = \<lparr>width = right - left, height = lower - upper,
               px = (\<lambda>x y.
                  if 0 \<le> x \<and> x < right - left \<and> 0 \<le> y \<and> y < lower - upper
                     \<and> 0 \<le> x + left \<and> x + left < width img
                     \<and> 0 \<le> y + upper \<and> y + upper < height img
                  then px img (x + left) (y + upper) else (0, 0, 0))\<rparr>"
proof -
  have a: "\<not> right < left" using assms by (auto simp: crop_def)
  have b: "\<not> lower < upper" using assms a by (auto simp: crop_def)
  show "left \<le> right" and "upper \<le> lower" using a b by simp_all
  show "p = \<lparr>width = right - left, height = lower - upper,
               px = (\<lambda>x y.
                  if 0 \<le> x \<and> x < right - left \<and> 0 \<le> y \<and> y < lower - upper
                     \<and> 0 \<le> x + left \<and> x + left < width img
                     \<and> 0 \<le> y + upper \<and> y + upper < height img
                  then px img (x + left) (y + upper) else (0, 0, 0))\<rparr>"
    using assms a b by (simp add: crop_def)
qed

lemma center_crop_result:
  assumes "center_crop img crop_w crop_h = Inr (patch, (left, top'))"
  shows "left = max 0 ((width img - crop_w) div 2)"
    and "top' = max 0 ((height img - crop_h) div 2)"
    and "0 \<le> crop_w" and "0 \<le> crop_h"
    and "width patch = crop_w" and "height patch = crop_h"
    and "\<forall>x y. px patch x y =
           (if 0 \<le> x \<and> x < crop_w \<and> 0 \<le> y \<and> y < crop_h
               \<and> 0 \<le> x + left \<and> x + left < width img
               \<and> 0 \<le> y + top' \<and> y + top' < height img
            then px img (x + left) (y + top') else (0, 0, 0))"
proof -
  let ?l = "max 0 ((width img - crop_w) div 2)" and ?t = "max 0 ((height img - crop_h) div 2)"
  have c: "crop img (?l, ?t, ?l + crop_w, ?t + crop_h) = Inr patch \<and> left = ?l \<and> top' = ?t"
    using assms unfolding center_crop_def Let_def by (simp split: sum.splits)
  then show l: "left = ?l" and t: "top' = ?t" by simp_all
  note r = crop_result[of img ?l ?t "?l + crop_w" "?t + crop_h" patch]
  from r(1,2) c show "0 \<le> crop_w" and "0 \<le> crop_h" by simp_all
  from r(3) c have p: "patch = \<lparr>width = crop_w, height = crop_h,
               px = (\<lambda>x y.
                  if 0 \<le> x \<and> x < crop_w \<and> 0 \<le> y \<and> y < crop_h
                     \<and> 0 \<le> x + ?l \<and> x + ?l < width img
                     \<and> 0 \<le> y + ?t \<and> y + ?t < height img
                  then px img (x + ?l) (y + ?t) else (0, 0, 0))\<rparr>"
    by simp
  show "width patch = crop_w" and "height patch = crop_h" by (simp_all add: p)
  show "\<forall>x y. px patch x y =
           (if 0 \<le> x \<and> x < crop_w \<and> 0 \<le> y \<and> y < crop_h
               \<and> 0 \<le> x + left \<and> x + left < width img
               \<and> 0 \<le> y + top' \<and> y + top' < height img
            then px img (x + left) (y + top') else (0, 0, 0))"
    unfolding l t by (subst p) simp
qed

lemma random_crop_result:
  assumes "random_crop img crop_w crop_h g = (Inr (patch, (left, top')), g')"
  shows "0 \<le> left" and "left \<le> max 0 (width img - crop_w)"
    and "0 \<le> top'" and "top' \<le> max 0 (height img - crop_h)"
proof -
  have "0 \<le> left \<and> left \<le> max 0 (width img - crop_w)
      \<and> 0 \<le> top' \<and> top' \<le> max 0 (height img - crop_h)"
  proof (cases "width img = crop_w \<and> height img = crop_h")
    case True
    then show ?thesis using assms by (simp add: random_crop_def)
  next
    case False
    let ?g1 = "\<lambda>k. g (Suc k)"
    have "0 \<le> max 0 (width img - crop_w)" by simp
    from randint_ok[OF this, of g] obtain l where
      l: "randint 0 (max 0 (width img - crop_w)) g = (Inr l, ?g1)"
         "0 \<le> l" "l \<le> max 0 (width img - crop_w)" by auto
    have "0 \<le> max 0 (height img - crop_h)" by simp
    from randint_ok[OF this, of ?g1] obtain t where
      t: "randint 0 (max 0 (height img - crop_h)) ?g1 = (Inr t, (\<lambda>k. ?g1 (Suc k)))"
         "0 \<le> t" "t \<le> max 0 (height img - crop_h)" by auto
    have "left = l \<and> top' = t"
      using assms False l(1) t(1)
      by (auto simp: random_crop_def Let_def split: sum.splits)
    then show ?thesis using l(2,3) t(2,3) by simp
  qed
  then show "0 \<le> left" and "left \<le> max 0 (width img - crop_w)"
    and "0 \<le> top'" and "top' \<le> max 0 (height img - crop_h)" by simp_all
qed

section \<open>Properties of the geometry utilities\<close>

text \<open>
  Claim C6. An image with positive dimensions whose smaller dimension is below \<open>min_size\<close>
  is resized by \<open>ensure_min_size\<close> so that the smaller dimension of the result is exactly
  \<open>min_size\<close>, and each dimension of the result is within one pixel of the source dimension
  times the exact factor \<open>min_size / min(width, height)\<close>. The floats are binary64: the bound
  \<open>min_size * max(width, height) < 2^50\<close> keeps the three roundings of a product below
  half a pixel.
\<close>

theorem ensure_min_size_upscales:
  assumes w: "0 < width img" and h: "0 < height img"
    and small: "min (width img) (height img) < min_size"
    and bound: "min_size * max (width img) (height img) < 2 ^ 50"
  shows "\<exists>img'. ensure_min_size K img min_size = Inr img'
           \<and> min (width img') (height img') = min_size
           \<and> \<bar>of_int (width img')
                - of_int (width img) * of_int min_size / of_int (min (width img) (height img))\<bar>
               \<le> (1 :: rat)
           \<and> \<bar>of_int (height img')
                - of_int (height img) * of_int min_size / of_int (min (width img) (height img))\<bar>
               \<le> (1 :: rat)"
proof -
  define m where "m = min (width img) (height img)"
  define sc where "sc = fl (of_int min_size / of_int m)"
  define nw where "nw = round_half_even (fmul (float_of_int (width img)) sc)"
  define nh where "nh = round_half_even (fmul (float_of_int (height img)) sc)"
  have m0: "0 < m" using w h by (simp add: m_def)
  have ms: "m < min_size" using small by (simp add: m_def)
  have s0: "0 < min_size" using m0 ms by simp
  have mw: "m \<le> width img" and mh: "m \<le> height img" by (simp_all add: m_def)
  have "width img * min_size \<le> max (width img) (height img) * min_size"
    using s0 by (intro mult_right_mono) simp_all
  then have bw: "width img * min_size < 2 ^ 50" using bound by (simp add: mult.commute)
  have "height img * min_size \<le> max (width img) (height img) * min_size"
    using s0 by (intro mult_right_mono) simp_all
  then have bh: "height img * min_size < 2 ^ 50" using bound by (simp add: mult.commute)
  have gw: "min_size \<le> nw" unfolding nw_def sc_def by (rule scaled_dim_ge[OF m0 mw ms bw])
  have gh: "min_size \<le> nh" unfolding nh_def sc_def by (rule scaled_dim_ge[OF m0 mh ms bh])
  have "m * min_size \<le> width img * min_size" using mw s0 by (intro mult_right_mono) simp_all
  then have "m * min_size < 2 ^ 50" using bw by linarith
  moreover have "min_size \<le> m * min_size" using m0 s0 by (simp add: mult_le_cancel_right1)
  ultimately have sb: "min_size < 2 ^ 50" by linarith
  have eqm: "round_half_even (fmul (float_of_int m) sc) = min_size"
    unfolding sc_def by (rule scaled_min_dim[OF m0 ms sb])
  have "nw = min_size \<or> nh = min_size"
    using eqm unfolding nw_def nh_def m_def by (simp add: min_def split: if_splits)
  then have mn: "min nw nh = min_size" using gw gh by auto
  have cw: "\<bar>of_int nw - of_int (width img) * of_int min_size / of_int m\<bar> \<le> (1 :: rat)"
    unfolding nw_def sc_def by (rule scaled_dim_close[OF w m0 s0 bw])
  have ch: "\<bar>of_int nh - of_int (height img) * of_int min_size / of_int m\<bar> \<le> (1 :: rat)"
    unfolding nh_def sc_def by (rule scaled_dim_close[OF h m0 s0 bh])
  have "1 \<le> fst (nw, nh)" "1 \<le> snd (nw, nh)" using gw gh s0 by simp_all
  from resize_size[OF this, of K img LANCZOS]
  obtain r where r: "resize K img (nw, nh) LANCZOS = Inr r" "width r = nw" "height r = nh"
    by auto
  have n1: "\<not> min_size \<le> min (width img) (height img)" using small by linarith
  have n2: "min (width img) (height img) \<noteq> 0" using m0 unfolding m_def by linarith
  have "ensure_min_size K img min_size = Inr r"
    unfolding ensure_min_size_def Let_def truediv_def
    using r(1) unfolding nw_def nh_def sc_def m_def
    by (simp only: n1 n2 if_False sum.case)
  then show ?thesis using r(2,3) mn cw ch unfolding m_def by blast
qed

theorem ensure_min_size_upscales_witness:
  "\<exists>img'. ensure_min_size flat_kernel (solid_image 200 300 (0, 0, 0)) 384 = Inr img'
      \<and> min (width img') (height img') = 384
      \<and> \<bar>of_int (width img') - of_int (200::int) * of_int (384::int) / of_int (200::int)\<bar> \<le> (1 :: rat)
      \<and> \<bar>of_int (height img') - of_int (300::int) * of_int (384::int) / of_int (200::int)\<bar> \<le> (1 :: rat)"
  using ensure_min_size_upscales [of "solid_image 200 300 (0, 0, 0)" 384 flat_kernel]
  by (simp add: solid_image_def)

text \<open>
  Claim C7. An image whose smaller dimension is at least \<open>min_size\<close> is returned by
  \<open>ensure_min_size\<close> as it is: the same size and the same pixels.
\<close>

theorem ensure_min_size_large_unchanged:
  assumes "min_size \<le> min (width img) (height img)"
  shows "ensure_min_size K img min_size = Inr img"
  using assms by (simp add: ensure_min_size_def Let_def)

theorem ensure_min_size_large_unchanged_witness:
  "ensure_min_size flat_kernel (solid_image 500 384 (1, 2, 3)) 384 = Inr (solid_image 500 384 (1, 2, 3))"
  using ensure_min_size_large_unchanged [of 384 "solid_image 500 384 (1, 2, 3)" flat_kernel]
  by (simp add: solid_image_def)

text \<open>
  Claim C5. When the image is at least as large as the crop in both dimensions, every
  offset that \<open>center_crop\<close> or \<open>random_crop\<close> returns, whatever the state of the random
  source, has \<open>0 \<le> left\<close>, \<open>0 \<le> top\<close>, \<open>left + crop_w \<le> width\<close> and
  \<open>top + crop_h \<le> height\<close>; and both do return one when the crop dimensions are not
  negative (PIL raises on an inverted crop box).
\<close>

theorem crop_offsets_within_image:
  assumes "crop_w \<le> width img" and "crop_h \<le> height img"
  shows "(\<forall>patch left top'.
            center_crop img crop_w crop_h = Inr (patch, (left, top'))
            \<longrightarrow> 0 \<le> left \<and> 0 \<le> top'
                \<and> left + crop_w \<le> width img \<and> top' + crop_h \<le> height img)
       \<and> (\<forall>patch left top' g'.
            random_crop img crop_w crop_h g = (Inr (patch, (left, top')), g')
            \<longrightarrow> 0 \<le> left \<and> 0 \<le> top'
                \<and> left + crop_w \<le> width img \<and> top' + crop_h \<le> height img)
       \<and> (0 \<le> crop_w \<and> 0 \<le> crop_h
            \<longrightarrow> (\<exists>patch offset. center_crop img crop_w crop_h = Inr (patch, offset))
                \<and> (\<exists>patch offset g'. random_crop img crop_w crop_h g = (Inr (patch, offset), g')))"
proof (intro conjI allI impI)
  fix patch left top'
  assume c: "center_crop img crop_w crop_h = Inr (patch, (left, top'))"
  note r = center_crop_result(1,2)[OF c]
  show "0 \<le> left" "0 \<le> top'" unfolding r by simp_all
  show "left + crop_w \<le> width img" unfolding r using assms(1) by (simp add: max_def)
  show "top' + crop_h \<le> height img" unfolding r using assms(2) by (simp add: max_def)
next
  fix patch left top' g'
  assume c: "random_crop img crop_w crop_h g = (Inr (patch, (left, top')), g')"
  note r = random_crop_result[OF c]
  show "0 \<le> left" "0 \<le> top'" by (rule r(1), rule r(3))
  show "left + crop_w \<le> width img" using r(2) assms(1) by simp
  show "top' + crop_h \<le> height img" using r(4) assms(2) by simp
next
  assume nn: "0 \<le> crop_w \<and> 0 \<le> crop_h"
  then show "\<exists>patch offset. center_crop img crop_w crop_h = Inr (patch, offset)"
    using center_crop_ok[of crop_w crop_h img] by blast
  show "\<exists>patch offset g'. random_crop img crop_w crop_h g = (Inr (patch, offset), g')"
    using nn random_crop_ok[of crop_w crop_h img g] by blast
qed

theorem crop_offsets_within_image_witness:
  "(\<exists>patch left top'. center_crop (solid_image 500 400 (1, 2, 3)) 384 384 = Inr (patch, (left, top'))
            \<and> 0 \<le> left \<and> 0 \<le> top'
            \<and> left + 384 \<le> width (solid_image 500 400 (1, 2, 3))
            \<and> top' + 384 \<le> height (solid_image 500 400 (1, 2, 3)))
       \<and> (\<exists>patch left top' g'. random_crop (solid_image 500 400 (1, 2, 3)) 384 384 (\<lambda>n. 7 * n + 3)
              = (Inr (patch, (left, top')), g')
            \<and> 0 \<le> left \<and> 0 \<le> top'
            \<and> left + 384 \<le> width (solid_image 500 400 (1, 2, 3))
            \<and> top' + 384 \<le> height (solid_image 500 400 (1, 2, 3)))"
proof -
  have "(384::int) \<le> width (solid_image 500 400 (1, 2, 3))"
       "(384::int) \<le> height (solid_image 500 400 (1, 2, 3))"
    by (simp_all add: solid_image_def)
  from crop_offsets_within_image [OF this, of "\<lambda>n. 7 * n + 3"]
  show ?thesis by (simp, metis prod.collapse)
qed

text \<open>
  Claim C10. When the image has exactly the crop dimensions, \<open>random_crop\<close> returns a copy
  of the whole image at offset \<open>(0, 0)\<close> and the random source in the state it was given:
  nothing is drawn, and any later crop behaves as if this call had not been made.
\<close>

theorem random_crop_exact_size_draws_nothing:
  assumes "width img = crop_w" "height img = crop_h"
  shows "random_crop img crop_w crop_h g = (Inr (copy img, (0, 0)), g)
       \<and> copy img = img
       \<and> (\<forall>img2 w2 h2. random_crop img2 w2 h2 (snd (random_crop img crop_w crop_h g))
                         = random_crop img2 w2 h2 g)"
  using assms by (simp add: random_crop_def copy_def)

theorem random_crop_exact_size_draws_nothing_witness:
  "random_crop (solid_image 384 384 (1, 2, 3)) 384 384 (\<lambda>n. 7 * n + 3)
       = (Inr (copy (solid_image 384 384 (1, 2, 3)), (0, 0)), (\<lambda>n. 7 * n + 3))
   \<and> copy (solid_image 384 384 (1, 2, 3)) = solid_image 384 384 (1, 2, 3)
   \<and> (\<forall>img2 w2 h2. random_crop img2 w2 h2
          (snd (random_crop (solid_image 384 384 (1, 2, 3)) 384 384 (\<lambda>n. 7 * n + 3)))
        = random_crop img2 w2 h2 (\<lambda>n. 7 * n + 3))"
proof -
  have "width (solid_image 384 384 (1, 2, 3)) = 384" "height (solid_image 384 384 (1, 2, 3)) = 384"
    by (simp_all add: solid_image_def)
  from random_crop_exact_size_draws_nothing [OF this] show ?thesis .
qed

text \<open>
  Claim C2, as stated, fails: for a 100 x 1000 image and a 384 x 384 crop only the width is
  smaller than the crop, the offset is \<open>(0, 308)\<close> and not \<open>(0, 0)\<close>, and the patch has the
  full size of the crop box.
\<close>

theorem center_crop_small_counterexample:
  "crop_geometry (center_crop (solid_image 100 1000 (0, 0, 0)) 384 384)
     = Inr ((384, 384), (0, 308))"
  by (simp add: crop_geometry_def center_crop_def crop_def solid_image_def Let_def)

text \<open>
  Claim C2, amended. When the image is smaller than the crop in width or in height,
  whatever \<open>center_crop\<close> returns has \<open>left = 0\<close> if the width is the smaller one and
  \<open>top = 0\<close> if the height is, so \<open>(0, 0)\<close> when both are, the other coordinate being the
  centring offset; the patch has exactly the requested size, and every pixel of it that
  lies beyond the image is black. It does return when the crop dimensions are not negative.
\<close>

theorem center_crop_small_image:
  assumes "width img < crop_w \<or> height img < crop_h"
  shows "(\<forall>patch left top'.
            center_crop img crop_w crop_h = Inr (patch, (left, top'))
            \<longrightarrow> (width img < crop_w \<longrightarrow> left = 0)
                \<and> (height img < crop_h \<longrightarrow> top' = 0)
                \<and> left = max 0 ((width img - crop_w) div 2)
                \<and> top' = max 0 ((height img - crop_h) div 2)
                \<and> width patch = crop_w \<and> height patch = crop_h
                \<and> (\<forall>x y. width img \<le> x + left \<or> height img \<le> y + top'
                          \<longrightarrow> px patch x y = (0, 0, 0)))
       \<and> (0 \<le> crop_w \<and> 0 \<le> crop_h
            \<longrightarrow> (\<exists>patch offset. center_crop img crop_w crop_h = Inr (patch, offset)))"
proof (intro conjI allI impI)
  fix patch left top'
  assume c: "center_crop img crop_w crop_h = Inr (patch, (left, top'))"
  note r = center_crop_result[OF c]
  show "left = max 0 ((width img - crop_w) div 2)" by (rule r(1))
  show "top' = max 0 ((height img - crop_h) div 2)" by (rule r(2))
  show "width patch = crop_w" by (rule r(5))
  show "height patch = crop_h" by (rule r(6))
  { assume "width img < crop_w" then show "left = 0" unfolding r(1) by (simp add: max_def) }
  { assume "height img < crop_h" then show "top' = 0" unfolding r(2) by (simp add: max_def) }
  { fix x y assume "width img \<le> x + left \<or> height img \<le> y + top'"
    then show "px patch x y = (0, 0, 0)" using r(7) by auto }
next
  assume "0 \<le> crop_w \<and> 0 \<le> crop_h"
  then show "\<exists>patch offset. center_crop img crop_w crop_h = Inr (patch, offset)"
    using center_crop_ok[of crop_w crop_h img] by blast
qed

theorem center_crop_small_image_witness:
  "\<exists>patch. center_crop (solid_image 100 1000 (9, 9, 9)) 384 384 = Inr (patch, (0, 308))
      \<and> width patch = 384 \<and> height patch = 384
      \<and> (\<forall>x y. 100 \<le> x \<or> 1000 \<le> y + 308 \<longrightarrow> px patch x y = (0, 0, 0))"
proof -
  let ?img = "solid_image 100 1000 (9, 9, 9)"
  have s: "width ?img < 384 \<or> height ?img < 384" by (simp add: solid_image_def)
  have d: "width ?img = 100" "height ?img = 1000" by (simp_all add: solid_image_def)
  note t = center_crop_small_image [OF s]
  from t obtain patch offset where c: "center_crop ?img 384 384 = Inr (patch, offset)" by auto
  obtain left top' where o: "offset = (left, top')" by (cases offset)
  from t c o have
    "left = max 0 ((width ?img - 384) div 2)" "top' = max 0 ((height ?img - 384) div 2)"
    "width patch = 384" "height patch = 384"
    "\<forall>x y. width ?img \<le> x + left \<or> height ?img \<le> y + top' \<longrightarrow> px patch x y = (0, 0, 0)"
    by blast+
  then show ?thesis using c o unfolding d by simp
qed

section \<open>Properties of file discovery and of the batch driver\<close>

lemma fold_update_map_of:
  "map_of (fold (\<lambda>fp files. AList.update (f fp) (g fp) files) xs acc) k =
     (if filter (\<lambda>q. f q = k) xs = [] then map_of acc k
      else Some (g (last (filter (\<lambda>q. f q = k) xs))))"
  by (induction xs arbitrary: acc) (auto simp: update_conv')

lemma fold_update_distinct:
  "distinct (map fst acc) \<Longrightarrow>
   distinct (map fst (fold (\<lambda>fp files. AList.update (f fp) (g fp) files) xs acc))"
  by (induction xs arbitrary: acc) (auto simp: distinct_update)

lemma distinct_keys_one_entry:
  "distinct (map fst al) \<Longrightarrow> map_of al k = Some v \<Longrightarrow>
   filter (\<lambda>(k', v'). k' = k) al = [(k, v)]"
proof (induction al)
  case Nil
  then show ?case by simp
next
  case (Cons a al)
  obtain k0 v0 where a: "a = (k0, v0)" by (cases a)
  show ?case
  proof (cases "k0 = k")
    case True
    then have "k \<notin> fst ` set al" using Cons.prems(1) a by simp
    then have "filter (\<lambda>(k', v'). k' = k) al = []"
      by (auto simp: filter_empty_conv image_iff)
    then show ?thesis using True a Cons.prems(2) by simp
  next
    case False
    then show ?thesis using Cons a by simp
  qed
qed

text \<open>
  Claim C9. For every file that the enumeration of the folder yields, the mapping returned by
  \<open>get_all_image_files\<close> has exactly one entry for the stem of that file, and its value is
  the last enumerated file with that stem: when two or more files share a stem under
  different extensions, the later ones replace the earlier ones without notice.
\<close>

theorem get_all_image_files_shared_stem:
  assumes "fp \<in> set (enumerate_files w folder)"
  shows "filter (\<lambda>(k, v). k = stem fp) (get_all_image_files w folder)
           = [(stem fp, last (filter (\<lambda>q. stem q = stem fp) (enumerate_files w folder)))]"
proof -
  let ?E = "enumerate_files w folder"
  have ne: "filter (\<lambda>q. stem q = stem fp) ?E \<noteq> []"
    using assms by (auto simp: filter_empty_conv)
  have m: "map_of (get_all_image_files w folder) (stem fp)
             = Some (last (filter (\<lambda>q. stem q = stem fp) ?E))"
    unfolding get_all_image_files_def
    using ne fold_update_map_of[of stem "\<lambda>fp. fp" ?E "[]" "stem fp"] by simp
  have d: "distinct (map fst (get_all_image_files w folder))"
    unfolding get_all_image_files_def by (rule fold_update_distinct) simp
  show ?thesis by (rule distinct_keys_one_entry[OF d m])
qed

lemma sample_mix_enumeration:
  "enumerate_files sample_world ''mix'' = [''mix/x.jpg'', ''mix/x.png'', ''mix/y.png'']"
  by (simp add: enumerate_files_def glob_def exts_def sample_world_def path_join_def)

lemma stem_samples:
  "stem ''mix/x.jpg'' = ''x''" "stem ''mix/x.png'' = ''x''" "stem ''mix/y.png'' = ''y''"
  by (simp_all add: stem_def path_name_def rfind_dot_def Let_def)

theorem get_all_image_files_shared_stem_witness:
  "filter (\<lambda>(k, v). k = stem ''mix/x.jpg'') (get_all_image_files sample_world ''mix'')
     = [(''x'', ''mix/x.png'')]"
proof -
  have "''mix/x.jpg'' \<in> set (enumerate_files sample_world ''mix'')"
    by (simp add: sample_mix_enumeration)
  from get_all_image_files_shared_stem [OF this] show ?thesis
    by (simp add: sample_mix_enumeration stem_samples)
qed

lemma glob_entries: "entries w' = entries w \<Longrightarrow> glob w' = glob w"
  by (intro ext) (simp add: glob_def)

lemma get_all_image_files_entries:
  "entries w' = entries w \<Longrightarrow> get_all_image_files w' folder = get_all_image_files w folder"
  using glob_entries[of w' w] by (simp add: get_all_image_files_def enumerate_files_def)

lemma makedirs_cases:
  "(\<exists>e. makedirs_error w d = Some e \<and> fst (makedirs d w) = Inl e)
   \<or> (makedirs_error w d = None \<and> fst (makedirs d w) = Inr ())"
  by (cases "makedirs_error w d") (auto simp: makedirs_def split: error.splits)

lemma makedirs_frame:
  "fs (snd (makedirs d w)) = fs w" "entries (snd (makedirs d w)) = entries w"
  "unwritable (snd (makedirs d w)) = unwritable w" "saved (snd (makedirs d w)) = saved w"
  "stdout (snd (makedirs d w)) = stdout w" "random (snd (makedirs d w)) = random w"
  by (cases "makedirs_error w d"; simp add: makedirs_def split: error.splits)+

lemma makedirs_error_frame:
  "fs w' = fs w \<Longrightarrow> unwritable w' = unwritable w \<Longrightarrow> makedirs_error w' d = makedirs_error w d"
proof -
  assume a: "fs w' = fs w" "unwritable w' = unwritable w"
  then have "is_file w' = is_file w" by (intro ext) (simp add: is_file_def)
  then show ?thesis using a by (simp add: makedirs_error_def)
qed

text \<open>Where an output directory cannot be made, the run ends there, whatever the mode.\<close>

lemma batch_process_makedirs_fails:
  assumes "makedirs_error w (path_join output_folder ''hr'') = Some e"
  shows "fst (batch_process K hr_folder output_folder mode w) = Inl e"
    and "stdout (snd (batch_process K hr_folder output_folder mode w)) = stdout w"
    and "saved (snd (batch_process K hr_folder output_folder mode w)) = saved w"
    and "fs (snd (batch_process K hr_folder output_folder mode w)) = fs w"
    and "random (snd (batch_process K hr_folder output_folder mode w)) = random w"
proof -
  let ?ho = "path_join output_folder ''hr''"
  obtain r w0 where m0: "makedirs ?ho w = (r, w0)" by (cases "makedirs ?ho w")
  have r: "r = Inl e" using makedirs_cases[of w ?ho] assms m0 by auto
  have f: "stdout w0 = stdout w" "saved w0 = saved w" "fs w0 = fs w" "random w0 = random w"
    using makedirs_frame[of ?ho w] m0 by simp_all
  have "batch_process K hr_folder output_folder mode w = (Inl e, w0)"
    using m0 r by (simp add: batch_process_def Let_def)
  then show "fst (batch_process K hr_folder output_folder mode w) = Inl e"
    and "stdout (snd (batch_process K hr_folder output_folder mode w)) = stdout w"
    and "saved (snd (batch_process K hr_folder output_folder mode w)) = saved w"
    and "fs (snd (batch_process K hr_folder output_folder mode w)) = fs w"
    and "random (snd (batch_process K hr_folder output_folder mode w)) = random w"
    using f by simp_all
qed

lemma ancestors_out: "ancestors ''out/hr'' = [''out'']" "ancestors ''out/lr'' = [''out'']"
  by code_simp+

lemma sample_makedirs:
  "makedirs_error sample_world ''out/hr'' = None" "makedirs_error sample_world ''out/lr'' = None"
  by (simp_all add: makedirs_error_def ancestors_out is_file_def sample_world_def)

text \<open>The output folder is a regular file: \<open>os.makedirs\<close> raises and nothing is printed.\<close>

lemma batch_process_blocked:
  "fst (batch_process K ''in'' ''out'' mode blocked_world) = Inl (NotADirectoryError ''out/hr'')"
  "stdout (snd (batch_process K ''in'' ''out'' mode blocked_world)) = stdout blocked_world"
proof -
  have "path_join ''out'' ''hr'' = ''out/hr''" by (simp add: path_join_def)
  moreover have "makedirs_error blocked_world ''out/hr'' = Some (NotADirectoryError ''out/hr'')"
    by (simp add: makedirs_error_def ancestors_out is_file_def blocked_world_def)
  ultimately have e: "makedirs_error blocked_world (path_join ''out'' ''hr'')
                        = Some (NotADirectoryError ''out/hr'')" by simp
  show "fst (batch_process K ''in'' ''out'' mode blocked_world) = Inl (NotADirectoryError ''out/hr'')"
    by (rule batch_process_makedirs_fails(1)[OF e])
  show "stdout (snd (batch_process K ''in'' ''out'' mode blocked_world)) = stdout blocked_world"
    by (rule batch_process_makedirs_fails(2)[OF e])
qed

text \<open>
  Claim C1. With any mode other than \<open>"generate"\<close>, \<open>batch_process\<close> raises, in every world:
  the OSError of \<open>os.makedirs\<close> where one of the two output directories cannot be made, and
  the ValueError of the \<open>else\<close> branch where both can. In either case nothing was processed
  before: no image was saved, no file changed, nothing was drawn from the random source.
  Nothing is printed in the first case, and the count of the images found is the only line
  printed in the second.
\<close>

theorem batch_process_unknown_mode:
  assumes "mode \<noteq> ''generate''"
  shows "\<exists>e w'. batch_process K hr_folder output_folder mode w = (Inl e, w')
             \<and> saved w' = saved w \<and> fs w' = fs w \<and> random w' = random w
             \<and> (case makedirs_error w (path_join output_folder ''hr'') of
                  Some e_hr \<Rightarrow> e = e_hr \<and> stdout w' = stdout w
                | None \<Rightarrow>
                    (case makedirs_error w (path_join output_folder ''lr'') of
                       Some e_lr \<Rightarrow> e = e_lr \<and> stdout w' = stdout w
                     | None \<Rightarrow>
                         e = ValueError ''Unknown mode. Choose 'generate'.''
                       \<and> stdout w' = stdout w @ [Found (length (get_all_image_files w hr_folder))]))"
proof -
  let ?ho = "path_join output_folder ''hr''" and ?lo = "path_join output_folder ''lr''"
  obtain r0 w0 where m0: "makedirs ?ho w = (r0, w0)" by (cases "makedirs ?ho w")
  have f0: "stdout w0 = stdout w" "saved w0 = saved w" "fs w0 = fs w" "random w0 = random w"
    "entries w0 = entries w" "unwritable w0 = unwritable w"
    using makedirs_frame[of ?ho w] m0 by simp_all
  show ?thesis
  proof (cases "makedirs_error w ?ho")
    case (Some e0)
    then have "r0 = Inl e0" using makedirs_cases[of w ?ho] m0 by auto
    then have "batch_process K hr_folder output_folder mode w = (Inl e0, w0)"
      using m0 by (simp add: batch_process_def Let_def)
    then show ?thesis using f0 Some by simp
  next
    case None
    then have r0: "r0 = Inr ()" using makedirs_cases[of w ?ho] m0 by auto
    obtain r1 w1 where m1: "makedirs ?lo w0 = (r1, w1)" by (cases "makedirs ?lo w0")
    have f1: "stdout w1 = stdout w" "saved w1 = saved w" "fs w1 = fs w" "random w1 = random w"
      "entries w1 = entries w"
      using makedirs_frame[of ?lo w0] m1 f0 by simp_all
    have el: "makedirs_error w0 ?lo = makedirs_error w ?lo"
      by (rule makedirs_error_frame[OF f0(3) f0(6)])
    show ?thesis
    proof (cases "makedirs_error w ?lo")
      case (Some e1)
      then have "r1 = Inl e1" using makedirs_cases[of w0 ?lo] m1 el by auto
      then have "batch_process K hr_folder output_folder mode w = (Inl e1, w1)"
        using m0 r0 m1 by (simp add: batch_process_def Let_def)
      then show ?thesis using f1 Some None by simp
    next
      case lr_ok: None
      then have r1: "r1 = Inr ()" using makedirs_cases[of w0 ?lo] m1 el by auto
      have gf: "get_all_image_files w1 hr_folder = get_all_image_files w hr_folder"
        by (rule get_all_image_files_entries[OF f1(5)])
      have "batch_process K hr_folder output_folder mode w
              = (Inl (ValueError ''Unknown mode. Choose 'generate'.''),
                 print (Found (length (get_all_image_files w hr_folder))) w1)"
        using m0 r0 m1 r1 assms by (simp add: batch_process_def Let_def gf)
      then show ?thesis using f1 None lr_ok by (simp add: print_def)
    qed
  qed
qed

theorem batch_process_unknown_mode_witness:
  "\<exists>w'. batch_process flat_kernel ''in'' ''out'' ''paired'' sample_world
                 = (Inl (ValueError ''Unknown mode. Choose 'generate'.''), w')
             \<and> saved w' = saved sample_world \<and> fs w' = fs sample_world
             \<and> random w' = random sample_world
             \<and> stdout w' = stdout sample_world @ [Found (length (get_all_image_files sample_world ''in''))]"
proof -
  have n: "''paired'' \<noteq> ''generate''" by simp
  have p: "path_join ''out'' ''hr'' = ''out/hr''" "path_join ''out'' ''lr'' = ''out/lr''"
    by (simp_all add: path_join_def)
  from batch_process_unknown_mode [OF n, of flat_kernel "''in''" "''out''" sample_world]
  show ?thesis unfolding p sample_makedirs by simp
qed

section \<open>Properties of generate mode\<close>

lemma scaled_dim_pos:
  fixes d s m :: int
  assumes m: "0 < m" and md: "m \<le> d" and ms: "m < s"
  shows "1 \<le> round_half_even (fmul (float_of_int d) (fl (of_int s / of_int m)))"
proof -
  have d: "0 < d" and s0: "0 < s" using m md ms by simp_all
  define E where "E = (of_int d * of_int s / of_int m :: rat)"
  define V where "V = fmul (float_of_int d) (fl (of_int s / of_int m))"
  have "(of_int m :: rat) \<le> of_int d" using md by (simp only: of_int_le_iff)
  then have "of_int m * of_int s \<le> (of_int d * of_int s :: rat)"
    using s0 by (simp add: mult_right_mono)
  then have "of_int m * of_int s / of_int m \<le> E"
    unfolding E_def using m by (simp only: divide_right_mono of_int_0_le_iff less_imp_le)
  then have sE: "of_int s \<le> E" using m by simp
  have "2 \<le> s" using m ms by simp
  then have "(of_int 2 :: rat) \<le> of_int s" by (simp only: of_int_le_iff)
  then have "(2 :: rat) \<le> of_int s" by simp
  then have E2: "2 \<le> E" using sE by linarith
  have "2 * (1 - 4 * u53) \<le> E * (1 - 4 * u53)"
    using E2 by (intro mult_right_mono) (simp_all add: u53_def)
  also have "\<dots> \<le> E * (1 - u53) ^ 3"
    using cube_bounds(1) E2 by (intro mult_left_mono) simp_all
  also have "\<dots> \<le> V"
    using scaled_bounds(1)[OF d m s0] unfolding E_def V_def .
  finally have "1 < V" by (simp add: u53_def)
  moreover have "\<bar>of_int (round_half_even V) - V\<bar> \<le> 1 / 2" by (rule rhe_err)
  ultimately have "(0 :: rat) < of_int (round_half_even V)" by linarith
  then have "0 < round_half_even V" by (simp only: of_int_0_less_iff)
  then show ?thesis unfolding V_def by simp
qed

lemma ensure_min_size_succeeds:
  assumes w: "0 < width img" and h: "0 < height img"
  shows "\<exists>img'. ensure_min_size K img min_size = Inr img'"
proof (cases "min_size \<le> min (width img) (height img)")
  case True
  then show ?thesis by (simp add: ensure_min_size_def Let_def)
next
  case False
  define m where "m = min (width img) (height img)"
  define sc where "sc = fl (of_int min_size / of_int m)"
  define nw where "nw = round_half_even (fmul (float_of_int (width img)) sc)"
  define nh where "nh = round_half_even (fmul (float_of_int (height img)) sc)"
  have m0: "0 < m" using w h by (simp add: m_def)
  have ms: "m < min_size" using False unfolding m_def by linarith
  have mw: "m \<le> width img" and mh: "m \<le> height img" by (simp_all add: m_def)
  have "1 \<le> fst (nw, nh)" "1 \<le> snd (nw, nh)"
    unfolding nw_def nh_def sc_def fst_conv snd_conv
    by (rule scaled_dim_pos[OF m0 mw ms], rule scaled_dim_pos[OF m0 mh ms])
  from resize_size[OF this, of K img LANCZOS]
  obtain r where r: "resize K img (nw, nh) LANCZOS = Inr r" by auto
  have n2: "min (width img) (height img) \<noteq> 0" using m0 unfolding m_def by linarith
  have "ensure_min_size K img min_size = Inr r"
    unfolding ensure_min_size_def Let_def truediv_def
    using r unfolding nw_def nh_def sc_def m_def
    by (simp only: False n2 if_False sum.case)
  then show ?thesis by blast
qed

lemma save_ok:
  assumes "\<not> unwritable w path"
  shows "save path img w
           = (Inr (), w\<lparr>fs := (fs w)(path \<mapsto> ImageFile img), saved := saved w @ [(path, img)]\<rparr>)"
  using assms by (simp add: save_def)

lemma downsample_patch:
  assumes "width p = HR_PATCH" "height p = HR_PATCH"
  shows "\<exists>lp. downsample K p (LR_PATCH, LR_PATCH) = Inr lp
            \<and> width lp = LR_PATCH \<and> height lp = LR_PATCH"
  using assms by (simp add: downsample_def resize_def HR_PATCH_def LR_PATCH_def)

lemma hr_crop_choice:
  "\<exists>hp off g.
      (if rc then
         (if HR_PATCH < width img \<and> HR_PATCH < height img
          then random_crop img HR_PATCH HR_PATCH (random w)
          else (center_crop img HR_PATCH HR_PATCH, random w))
       else (center_crop img HR_PATCH HR_PATCH, random w)) = (Inr (hp, off), g)
      \<and> width hp = HR_PATCH \<and> height hp = HR_PATCH"
proof -
  have nn: "0 \<le> HR_PATCH" by (simp add: HR_PATCH_def)
  from center_crop_ok[OF nn nn, of img] obtain cp where
    c: "center_crop img HR_PATCH HR_PATCH
          = Inr (cp, (max 0 ((width img - HR_PATCH) div 2), max 0 ((height img - HR_PATCH) div 2)))"
       "width cp = HR_PATCH" "height cp = HR_PATCH" by blast
  from random_crop_ok[OF nn nn, of img "random w"] obtain rp l t g' where
    r: "random_crop img HR_PATCH HR_PATCH (random w) = (Inr (rp, (l, t)), g')"
       "width rp = HR_PATCH" "height rp = HR_PATCH" by blast
  show ?thesis
  proof (cases "rc \<and> HR_PATCH < width img \<and> HR_PATCH < height img")
    case True
    then show ?thesis using r by auto
  next
    case False
    then show ?thesis using c by auto
  qed
qed

lemma generate_patch_ok:
  assumes "\<not> unwritable w (path_join hr_out_dir (stem hr_path @ ''_p'' @ fmt_03d i @ ''.png''))"
    and "\<not> unwritable w (path_join lr_out_dir (stem hr_path @ ''_p'' @ fmt_03d i @ ''.png''))"
  shows "\<exists>hp lp w'. generate_patch K img hr_path hr_out_dir lr_out_dir rc i w = (Inr (), w')
           \<and> saved w' = saved w
                @ [(path_join hr_out_dir (stem hr_path @ ''_p'' @ fmt_03d i @ ''.png''), hp),
                   (path_join lr_out_dir (stem hr_path @ ''_p'' @ fmt_03d i @ ''.png''), lp)]
           \<and> width hp = HR_PATCH \<and> height hp = HR_PATCH
           \<and> width lp = LR_PATCH \<and> height lp = LR_PATCH
           \<and> downsample K hp (LR_PATCH, LR_PATCH) = Inr lp
           \<and> unwritable w' = unwritable w \<and> stdout w' = stdout w
           \<and> (\<exists>off.
                 (if rc then
                    (if HR_PATCH < width img \<and> HR_PATCH < height img
                     then random_crop img HR_PATCH HR_PATCH (random w)
                     else (center_crop img HR_PATCH HR_PATCH, random w))
                  else (center_crop img HR_PATCH HR_PATCH, random w)) = (Inr (hp, off), random w'))"
proof -
  let ?oh = "path_join hr_out_dir (stem hr_path @ ''_p'' @ fmt_03d i @ ''.png'')"
  let ?ol = "path_join lr_out_dir (stem hr_path @ ''_p'' @ fmt_03d i @ ''.png'')"
  from hr_crop_choice[of rc img w] obtain hp off g where
    c: "(if rc then
         (if HR_PATCH < width img \<and> HR_PATCH < height img
          then random_crop img HR_PATCH HR_PATCH (random w)
          else (center_crop img HR_PATCH HR_PATCH, random w))
       else (center_crop img HR_PATCH HR_PATCH, random w)) = (Inr (hp, off), g)"
    and hp: "width hp = HR_PATCH" "height hp = HR_PATCH" by blast
  from downsample_patch[OF hp, of K] obtain lp where
    lp: "downsample K hp (LR_PATCH, LR_PATCH) = Inr lp" "width lp = LR_PATCH" "height lp = LR_PATCH"
    by blast
  define w1 where "w1 = w\<lparr>random := g\<rparr>"
  define w2 where "w2 = w1\<lparr>fs := (fs w1)(?oh \<mapsto> ImageFile hp), saved := saved w1 @ [(?oh, hp)]\<rparr>"
  define w3 where "w3 = w2\<lparr>fs := (fs w2)(?ol \<mapsto> ImageFile lp), saved := saved w2 @ [(?ol, lp)]\<rparr>"
  have s1: "save ?oh hp w1 = (Inr (), w2)"
    unfolding w2_def using assms(1) by (intro save_ok) (simp add: w1_def)
  have s2: "save ?ol lp w2 = (Inr (), w3)"
    unfolding w3_def using assms(2) by (intro save_ok) (simp add: w2_def w1_def)
  have "generate_patch K img hr_path hr_out_dir lr_out_dir rc i w = (Inr (), w3)"
    unfolding generate_patch_def Let_def c using lp(1) s1 s2 by (simp add: w1_def)
  moreover have "saved w3 = saved w @ [(?oh, hp), (?ol, lp)]"
    "unwritable w3 = unwritable w" "stdout w3 = stdout w"
    by (simp_all add: w3_def w2_def w1_def)
  moreover have "random w3 = g" by (simp add: w3_def w2_def w1_def)
  ultimately show ?thesis using hp lp c by blast
qed

lemma generate_patches_ok:
  assumes "\<forall>i\<in>set idx.
             \<not> unwritable w (path_join hr_out_dir (stem hr_path @ ''_p'' @ fmt_03d i @ ''.png''))
           \<and> \<not> unwritable w (path_join lr_out_dir (stem hr_path @ ''_p'' @ fmt_03d i @ ''.png''))"
  shows "\<exists>patches w'. generate_patches K img hr_path hr_out_dir lr_out_dir rc idx w = (Inr (), w')
           \<and> length patches = length idx
           \<and> saved w' = saved w @ concat (map (\<lambda>(i, hp, lp).
                  [(path_join hr_out_dir (stem hr_path @ ''_p'' @ fmt_03d i @ ''.png''), hp),
                   (path_join lr_out_dir (stem hr_path @ ''_p'' @ fmt_03d i @ ''.png''), lp)])
                (zip idx patches))
           \<and> (\<forall>(hp, lp)\<in>set patches.
                  width hp = HR_PATCH \<and> height hp = HR_PATCH
                \<and> width lp = LR_PATCH \<and> height lp = LR_PATCH
                \<and> downsample K hp (LR_PATCH, LR_PATCH) = Inr lp)
           \<and> unwritable w' = unwritable w \<and> stdout w' = stdout w"
  using assms
proof (induction idx arbitrary: w)
  case Nil
  show ?case by (rule exI[of _ "[]"]) simp
next
  case (Cons i idx)
  let ?oh = "\<lambda>i. path_join hr_out_dir (stem hr_path @ ''_p'' @ fmt_03d i @ ''.png'')"
  let ?ol = "\<lambda>i. path_join lr_out_dir (stem hr_path @ ''_p'' @ fmt_03d i @ ''.png'')"
  have wi: "\<not> unwritable w (?oh i)" "\<not> unwritable w (?ol i)" using Cons.prems by simp_all
  from generate_patch_ok[OF wi, of K img rc] obtain hp lp w1 where
    g: "generate_patch K img hr_path hr_out_dir lr_out_dir rc i w = (Inr (), w1)"
       "saved w1 = saved w @ [(?oh i, hp), (?ol i, lp)]"
       "width hp = HR_PATCH" "height hp = HR_PATCH" "width lp = LR_PATCH" "height lp = LR_PATCH"
       "downsample K hp (LR_PATCH, LR_PATCH) = Inr lp"
       "unwritable w1 = unwritable w" "stdout w1 = stdout w" by blast
  have "\<forall>j\<in>set idx. \<not> unwritable w1 (?oh j) \<and> \<not> unwritable w1 (?ol j)"
    using Cons.prems g(8) by simp
  from Cons.IH[OF this] obtain patches w' where
    r: "generate_patches K img hr_path hr_out_dir lr_out_dir rc idx w1 = (Inr (), w')"
       "length patches = length idx"
       "saved w' = saved w1 @ concat (map (\<lambda>(i, hp, lp). [(?oh i, hp), (?ol i, lp)]) (zip idx patches))"
       "\<forall>(hp, lp)\<in>set patches.
                  width hp = HR_PATCH \<and> height hp = HR_PATCH
                \<and> width lp = LR_PATCH \<and> height lp = LR_PATCH
                \<and> downsample K hp (LR_PATCH, LR_PATCH) = Inr lp"
       "unwritable w' = unwritable w1" "stdout w' = stdout w1" by blast
  have a: "generate_patches K img hr_path hr_out_dir lr_out_dir rc (i # idx) w = (Inr (), w')"
    using g(1) r(1) by simp
  have b: "length ((hp, lp) # patches) = length (i # idx)" using r(2) by simp
  have c: "saved w' = saved w @ concat (map (\<lambda>(i, hp, lp). [(?oh i, hp), (?ol i, lp)])
              (zip (i # idx) ((hp, lp) # patches)))"
    using r(3) g(2) by simp
  have d: "\<forall>(hp, lp)\<in>set ((hp, lp) # patches).
                  width hp = HR_PATCH \<and> height hp = HR_PATCH
                \<and> width lp = LR_PATCH \<and> height lp = LR_PATCH
                \<and> downsample K hp (LR_PATCH, LR_PATCH) = Inr lp"
    using r(4) g(3-7) by simp
  have e: "unwritable w' = unwritable w" "stdout w' = stdout w"
    using r(5,6) g(8,9) by simp_all
  show ?case
    by (rule exI[of _ "(hp, lp) # patches"], rule exI[of _ w']) (intro conjI a b c d e)
qed

text \<open>
  Claim C4. When the source image loads (it has positive dimensions), the patch count is
  not negative and the output files can be written, \<open>process_generate_mode\<close> completes and
  saves exactly \<open>patches_per_image\<close> pairs, in order of the patch index: the high-resolution
  patch under the name of index \<open>i\<close> in the one directory, then the low-resolution patch under
  the same name in the other. Every high-resolution patch is 384 x 384, every low-resolution
  patch is 96 x 96 and is the downsampled high-resolution patch of its pair.
\<close>

theorem process_generate_mode_patch_pairs:
  assumes "fs w hr_path = Some (ImageFile img0)"
    and "0 < width img0" and "0 < height img0"
    and "0 \<le> patches_per_image"
    and "\<forall>i < nat patches_per_image.
             \<not> unwritable w (path_join hr_out_dir (stem hr_path @ ''_p'' @ fmt_03d i @ ''.png''))
           \<and> \<not> unwritable w (path_join lr_out_dir (stem hr_path @ ''_p'' @ fmt_03d i @ ''.png''))"
  shows "\<exists>patches w'.
           process_generate_mode K hr_path hr_out_dir lr_out_dir patches_per_image rc w = (Inr (), w')
           \<and> int (length patches) = patches_per_image
           \<and> saved w' = saved w @ concat (map (\<lambda>(i, hp, lp).
                  [(path_join hr_out_dir (stem hr_path @ ''_p'' @ fmt_03d i @ ''.png''), hp),
                   (path_join lr_out_dir (stem hr_path @ ''_p'' @ fmt_03d i @ ''.png''), lp)])
                (zip [0 ..< nat patches_per_image] patches))
           \<and> (\<forall>(hp, lp)\<in>set patches.
                  (width hp, height hp) = (384, 384) \<and> (width lp, height lp) = (96, 96)
                \<and> downsample K hp (96, 96) = Inr lp)"
proof -
  from ensure_min_size_succeeds[OF assms(2,3), of K MIN_HR_DIM] obtain img where
    e: "ensure_min_size K img0 MIN_HR_DIM = Inr img" by blast
  have o: "open_rgb hr_path w = Inr img0" using assms(1) by (simp add: open_rgb_def)
  have "\<forall>i\<in>set [0 ..< nat patches_per_image].
             \<not> unwritable w (path_join hr_out_dir (stem hr_path @ ''_p'' @ fmt_03d i @ ''.png''))
           \<and> \<not> unwritable w (path_join lr_out_dir (stem hr_path @ ''_p'' @ fmt_03d i @ ''.png''))"
    using assms(5) by simp
  from generate_patches_ok[OF this, of K img rc] obtain patches w' where
    r: "generate_patches K img hr_path hr_out_dir lr_out_dir rc [0 ..< nat patches_per_image] w
          = (Inr (), w')"
       "length patches = length [0 ..< nat patches_per_image]"
       "saved w' = saved w @ concat (map (\<lambda>(i, hp, lp).
                  [(path_join hr_out_dir (stem hr_path @ ''_p'' @ fmt_03d i @ ''.png''), hp),
                   (path_join lr_out_dir (stem hr_path @ ''_p'' @ fmt_03d i @ ''.png''), lp)])
                (zip [0 ..< nat patches_per_image] patches))"
       "\<forall>(hp, lp)\<in>set patches.
                  width hp = HR_PATCH \<and> height hp = HR_PATCH
                \<and> width lp = LR_PATCH \<and> height lp = LR_PATCH
                \<and> downsample K hp (LR_PATCH, LR_PATCH) = Inr lp" by blast
  have a: "process_generate_mode K hr_path hr_out_dir lr_out_dir patches_per_image rc w = (Inr (), w')"
    using o e r(1) by (simp add: process_generate_mode_def)
  have b: "int (length patches) = patches_per_image" using r(2) assms(4) by simp
  have d: "\<forall>(hp, lp)\<in>set patches.
                  (width hp, height hp) = (384, 384) \<and> (width lp, height lp) = (96, 96)
                \<and> downsample K hp (96, 96) = Inr lp"
    using r(4) by (simp add: HR_PATCH_def LR_PATCH_def)
  show ?thesis
    by (rule exI[of _ patches], rule exI[of _ w']) (intro conjI a b r(3) d)
qed

theorem process_generate_mode_patch_pairs_witness:
  "\<exists>patches w'.
      process_generate_mode flat_kernel ''in/c.jpg'' ''out/hr'' ''out/lr'' 6 True sample_world
        = (Inr (), w')
      \<and> int (length patches) = 6
      \<and> saved w' = saved sample_world @ concat (map (\<lambda>(i, hp, lp).
             [(path_join ''out/hr'' (stem ''in/c.jpg'' @ ''_p'' @ fmt_03d i @ ''.png''), hp),
              (path_join ''out/lr'' (stem ''in/c.jpg'' @ ''_p'' @ fmt_03d i @ ''.png''), lp)])
           (zip [0 ..< nat 6] patches))
      \<and> (\<forall>(hp, lp)\<in>set patches.
             (width hp, height hp) = (384, 384) \<and> (width lp, height lp) = (96, 96)
           \<and> downsample flat_kernel hp (96, 96) = Inr lp)"
proof -
  have "fs sample_world ''in/c.jpg'' = Some (ImageFile (solid_image 200 300 (4, 5, 6)))"
    by (simp add: sample_world_def)
  moreover have "0 < width (solid_image 200 300 (4, 5, 6))" "0 < height (solid_image 200 300 (4, 5, 6))"
    by (simp_all add: solid_image_def)
  moreover have "(0::int) \<le> 6" by simp
  moreover have "\<forall>i < nat 6.
      \<not> unwritable sample_world (path_join ''out/hr'' (stem ''in/c.jpg'' @ ''_p'' @ fmt_03d i @ ''.png''))
    \<and> \<not> unwritable sample_world (path_join ''out/lr'' (stem ''in/c.jpg'' @ ''_p'' @ fmt_03d i @ ''.png''))"
    by (simp add: sample_world_def)
  ultimately show ?thesis by (rule process_generate_mode_patch_pairs)
qed

section \<open>Properties of paired mode\<close>

lemma fmt_03d_0: "fmt_03d 0 = ''000''"
  by code_simp

lemma generate_single_patch:
  assumes o: "fs w hr_path = Some (ImageFile hr0)"
    and e: "ensure_min_size K hr0 HR_PATCH = Inr hr_img"
    and wr: "\<not> unwritable w (path_join hr_out_dir (stem hr_path @ ''_p000.png''))"
            "\<not> unwritable w (path_join lr_out_dir (stem hr_path @ ''_p000.png''))"
  shows "\<exists>hp lp off w'.
           process_generate_mode K hr_path hr_out_dir lr_out_dir 1 rc (print m w) = (Inr (), w')
           \<and> stdout w' = stdout w @ [m]
           \<and> saved w' = saved w
                @ [(path_join hr_out_dir (stem hr_path @ ''_p000.png''), hp),
                   (path_join lr_out_dir (stem hr_path @ ''_p000.png''), lp)]
           \<and> (width hp, height hp) = (384, 384) \<and> (width lp, height lp) = (96, 96)
           \<and> downsample K hp (96, 96) = Inr lp
           \<and> (if rc \<and> 384 < width hr_img \<and> 384 < height hr_img
               then random_crop hr_img 384 384 (random w)
               else (center_crop hr_img 384 384, random w)) = (Inr (hp, off), random w')"
proof -
  let ?w = "print m w"
  let ?oh = "path_join hr_out_dir (stem hr_path @ ''_p'' @ fmt_03d 0 @ ''.png'')"
  let ?ol = "path_join lr_out_dir (stem hr_path @ ''_p'' @ fmt_03d 0 @ ''.png'')"
  have names: "stem hr_path @ ''_p'' @ fmt_03d 0 @ ''.png'' = stem hr_path @ ''_p000.png''"
    by (simp add: fmt_03d_0)
  have pw: "unwritable ?w = unwritable w" "saved ?w = saved w" "stdout ?w = stdout w @ [m]"
    "random ?w = random w" "fs ?w = fs w"
    by (simp_all add: print_def)
  have wi: "\<not> unwritable ?w ?oh" "\<not> unwritable ?w ?ol"
    using wr unfolding names pw by simp_all
  from generate_patch_ok[OF wi, of K hr_img rc] obtain hp lp w' off where
    g: "generate_patch K hr_img hr_path hr_out_dir lr_out_dir rc 0 ?w = (Inr (), w')"
       "saved w' = saved ?w @ [(?oh, hp), (?ol, lp)]"
       "width hp = HR_PATCH" "height hp = HR_PATCH" "width lp = LR_PATCH" "height lp = LR_PATCH"
       "downsample K hp (LR_PATCH, LR_PATCH) = Inr lp"
       "stdout w' = stdout ?w"
       "(if rc then
           (if HR_PATCH < width hr_img \<and> HR_PATCH < height hr_img
            then random_crop hr_img HR_PATCH HR_PATCH (random ?w)
            else (center_crop hr_img HR_PATCH HR_PATCH, random ?w))
         else (center_crop hr_img HR_PATCH HR_PATCH, random ?w)) = (Inr (hp, off), random w')"
    by blast
  have op: "open_rgb hr_path ?w = Inr hr0" using o by (simp add: open_rgb_def pw)
  have a: "process_generate_mode K hr_path hr_out_dir lr_out_dir 1 rc ?w = (Inr (), w')"
    using op e g(1) by (simp add: process_generate_mode_def MIN_HR_DIM_def)
  have b: "stdout w' = stdout w @ [m]" using g(8) pw by simp
  have c: "saved w' = saved w
                @ [(path_join hr_out_dir (stem hr_path @ ''_p000.png''), hp),
                   (path_join lr_out_dir (stem hr_path @ ''_p000.png''), lp)]"
    using g(2) unfolding names pw .
  have d: "(width hp, height hp) = (384, 384)" "(width lp, height lp) = (96, 96)"
    "downsample K hp (96, 96) = Inr lp"
    using g(3-7) by (simp_all add: HR_PATCH_def LR_PATCH_def)
  have f: "(if rc \<and> 384 < width hr_img \<and> 384 < height hr_img
               then random_crop hr_img 384 384 (random w)
               else (center_crop hr_img 384 384, random w)) = (Inr (hp, off), random w')"
  proof -
    have "(if rc \<and> 384 < width hr_img \<and> 384 < height hr_img
               then random_crop hr_img 384 384 (random w)
               else (center_crop hr_img 384 384, random w))
        = (if rc then
           (if HR_PATCH < width hr_img \<and> HR_PATCH < height hr_img
            then random_crop hr_img HR_PATCH HR_PATCH (random ?w)
            else (center_crop hr_img HR_PATCH HR_PATCH, random ?w))
         else (center_crop hr_img HR_PATCH HR_PATCH, random ?w))"
      unfolding pw HR_PATCH_def by simp
    then show ?thesis using g(9) by (simp only:)
  qed
  show ?thesis
    by (rule exI[of _ hp], rule exI[of _ lp], rule exI[of _ off], rule exI[of _ w'])
       (intro conjI a b c d f)
qed

text \<open>
  Claim C3. Both images load and \<open>ensure_min_size\<close> gives \<open>lr_img\<close> and \<open>hr_img\<close>, with the
  scale factors \<open>scale_w\<close> and \<open>scale_h\<close> of the program. When \<open>|scale_w - scale_h| > 0.1\<close>, or
  else \<open>|(scale_w + scale_h) / 2 - UPSCALE| > 0.5\<close> (in the float arithmetic of the program),
  and the two output files can be written, \<open>process_paired_mode\<close> prints one warning and saves
  exactly one pair, under the generate-mode name of index 0: a 384 x 384 crop of the
  high-resolution image (random or centred, as generate mode chooses) and the 96 x 96
  downsample of that crop. The low-resolution image is in neither.
\<close>

theorem process_paired_mode_fallback:
  assumes hr: "fs w hr_path = Some (ImageFile hr0)"
    and lr: "fs w lr_path = Some (ImageFile lr0)"
    and el: "ensure_min_size K lr0 LR_PATCH = Inr lr_img"
    and eh: "ensure_min_size K hr0 HR_PATCH = Inr hr_img"
    and sw: "truediv (width hr_img) (width lr_img) = Inr scale_w"
    and sh: "truediv (height hr_img) (height lr_img) = Inr scale_h"
    and mismatch: "fl (1 / 10) < \<bar>fsub scale_w scale_h\<bar>
                 \<or> fl (1 / 2) < \<bar>fsub (fdiv (fadd scale_w scale_h) (fl 2)) (float_of_int UPSCALE)\<bar>"
    and wr: "\<not> unwritable w (path_join hr_out_dir (stem hr_path @ ''_p000.png''))"
            "\<not> unwritable w (path_join lr_out_dir (stem hr_path @ ''_p000.png''))"
  shows "\<exists>hp lp off w'.
           process_paired_mode K hr_path lr_path hr_out_dir lr_out_dir rc w = (Inr (), w')
           \<and> stdout w' = stdout w
                @ [if fl (1 / 10) < \<bar>fsub scale_w scale_h\<bar> then WarnAspect (stem hr_path)
                   else WarnScale UPSCALE (fdiv (fadd scale_w scale_h) (fl 2)) (stem hr_path)]
           \<and> saved w' = saved w
                @ [(path_join hr_out_dir (stem hr_path @ ''_p000.png''), hp),
                   (path_join lr_out_dir (stem hr_path @ ''_p000.png''), lp)]
           \<and> (width hp, height hp) = (384, 384) \<and> (width lp, height lp) = (96, 96)
           \<and> downsample K hp (96, 96) = Inr lp
           \<and> (if rc \<and> 384 < width hr_img \<and> 384 < height hr_img
               then random_crop hr_img 384 384 (random w)
               else (center_crop hr_img 384 384, random w)) = (Inr (hp, off), random w')"
proof -
  define m where "m = (if fl (1 / 10) < \<bar>fsub scale_w scale_h\<bar> then WarnAspect (stem hr_path)
                   else WarnScale UPSCALE (fdiv (fadd scale_w scale_h) (fl 2)) (stem hr_path))"
  have oh: "open_rgb hr_path w = Inr hr0" using hr by (simp add: open_rgb_def)
  have ol: "open_rgb lr_path w = Inr lr0" using lr by (simp add: open_rgb_def)
  have "process_paired_mode K hr_path lr_path hr_out_dir lr_out_dir rc w
          = process_generate_mode K hr_path hr_out_dir lr_out_dir 1 rc (print m w)"
    unfolding process_paired_mode_def m_def using oh ol el eh sw sh mismatch
    by (cases "fl (1 / 10) < \<bar>fsub scale_w scale_h\<bar>") (simp_all add: Let_def)
  then show ?thesis
    using generate_single_patch[OF hr eh wr, where rc = rc and m = m] unfolding m_def by simp
qed

theorem process_paired_mode_fallback_witness:
  "\<exists>hp lp off w'.
      process_paired_mode flat_kernel ''in/a.jpg'' ''low/a.jpg'' ''out/hr'' ''out/lr'' True sample_world
        = (Inr (), w')
      \<and> stdout w' = stdout sample_world
           @ [if fl (1 / 10) < \<bar>fsub (fl (500 / 200)) (fl (500 / 100))\<bar>
              then WarnAspect (stem ''in/a.jpg'')
              else WarnScale UPSCALE (fdiv (fadd (fl (500 / 200)) (fl (500 / 100))) (fl 2))
                     (stem ''in/a.jpg'')]
      \<and> saved w' = saved sample_world
           @ [(path_join ''out/hr'' (stem ''in/a.jpg'' @ ''_p000.png''), hp),
              (path_join ''out/lr'' (stem ''in/a.jpg'' @ ''_p000.png''), lp)]
      \<and> (width hp, height hp) = (384, 384) \<and> (width lp, height lp) = (96, 96)
      \<and> downsample flat_kernel hp (96, 96) = Inr lp
      \<and> (if True \<and> 384 < width (solid_image 500 500 (1, 2, 3))
                 \<and> 384 < height (solid_image 500 500 (1, 2, 3))
          then random_crop (solid_image 500 500 (1, 2, 3)) 384 384 (random sample_world)
          else (center_crop (solid_image 500 500 (1, 2, 3)) 384 384, random sample_world))
         = (Inr (hp, off), random w')"
proof -
  let ?hr0 = "solid_image 500 500 (1, 2, 3)" and ?lr0 = "solid_image 200 100 (7, 8, 9)"
  have hr: "fs sample_world ''in/a.jpg'' = Some (ImageFile ?hr0)"
    by (simp add: sample_world_def)
  have lr: "fs sample_world ''low/a.jpg'' = Some (ImageFile ?lr0)"
    by (simp add: sample_world_def)
  have el: "ensure_min_size flat_kernel ?lr0 LR_PATCH = Inr ?lr0"
    by (simp add: ensure_min_size_def solid_image_def LR_PATCH_def)
  have eh: "ensure_min_size flat_kernel ?hr0 HR_PATCH = Inr ?hr0"
    by (simp add: ensure_min_size_def solid_image_def HR_PATCH_def)
  have sw: "truediv (width ?hr0) (width ?lr0) = Inr (fl (500 / 200))"
    by (simp add: truediv_def solid_image_def)
  have sh: "truediv (height ?hr0) (height ?lr0) = Inr (fl (500 / 100))"
    by (simp add: truediv_def solid_image_def)
  have "fl (1 / 10) < \<bar>fsub (fl (500 / 200)) (fl (500 / 100))\<bar>"
    by code_simp
  then have mismatch: "fl (1 / 10) < \<bar>fsub (fl (500 / 200)) (fl (500 / 100))\<bar>
      \<or> fl (1 / 2) < \<bar>fsub (fdiv (fadd (fl (500 / 200)) (fl (500 / 100))) (fl 2))
                          (float_of_int UPSCALE)\<bar>" ..
  have wr: "\<not> unwritable sample_world (path_join ''out/hr'' (stem ''in/a.jpg'' @ ''_p000.png''))"
           "\<not> unwritable sample_world (path_join ''out/lr'' (stem ''in/a.jpg'' @ ''_p000.png''))"
    by (simp_all add: sample_world_def)
  from process_paired_mode_fallback [OF hr lr el eh sw sh mismatch wr, of True]
  show ?thesis .
qed

text \<open>
  The second trigger at the scale of the specification: a true scale of 6.0 against
  \<open>UPSCALE = 4\<close> passes the aspect check and fails the scale check.
\<close>

lemma scale_six_triggers_fallback:
  "\<not> fl (1 / 10) < \<bar>fsub (fl (600 / 100)) (fl (600 / 100))\<bar>"
  "fl (1 / 2) < \<bar>fsub (fdiv (fadd (fl (600 / 100)) (fl (600 / 100))) (fl 2)) (float_of_int UPSCALE)\<bar>"
  by code_simp+

section \<open>Error isolation in the batch driver\<close>

text \<open>Generate mode prints nothing and does not read what was printed.\<close>

lemma save_stdout:
  "save path img (w\<lparr>stdout := s\<rparr>)
     = (case save path img w of (r, w') \<Rightarrow> (r, w'\<lparr>stdout := s\<rparr>))"
  by (simp add: save_def)

lemma generate_patch_stdout:
  "generate_patch K img hr_path ho lo rc i (w\<lparr>stdout := s\<rparr>)
     = (case generate_patch K img hr_path ho lo rc i w of (r, w') \<Rightarrow> (r, w'\<lparr>stdout := s\<rparr>))"
proof -
  have sw: "\<And>g path p. save path p (w\<lparr>stdout := s, random := g\<rparr>)
              = (case save path p (w\<lparr>random := g\<rparr>) of (r, w') \<Rightarrow> (r, w'\<lparr>stdout := s\<rparr>))"
    by (simp add: save_def)
  show ?thesis
    unfolding generate_patch_def Let_def
    by (simp add: sw save_stdout split: prod.splits sum.splits)
qed

lemma generate_patches_stdout:
  "generate_patches K img hr_path ho lo rc idx (w\<lparr>stdout := s\<rparr>)
     = (case generate_patches K img hr_path ho lo rc idx w of (r, w') \<Rightarrow> (r, w'\<lparr>stdout := s\<rparr>))"
proof (induction idx arbitrary: w)
  case Nil
  show ?case by simp
next
  case (Cons i idx)
  show ?case
    by (simp add: generate_patch_stdout Cons.IH split: prod.splits sum.splits)
qed

lemma process_generate_mode_stdout:
  "process_generate_mode K hr_path ho lo n rc (w\<lparr>stdout := s\<rparr>)
     = (case process_generate_mode K hr_path ho lo n rc w of (r, w') \<Rightarrow> (r, w'\<lparr>stdout := s\<rparr>))"
  by (simp add: process_generate_mode_def open_rgb_def generate_patches_stdout
           split: sum.splits option.splits file_content.splits)

lemma run_files_paths:
  "run_files K ho lo paths w = (outcomes, w_end) \<Longrightarrow> map fst outcomes = paths"
  by (induction paths arbitrary: w outcomes w_end) (auto split: prod.splits)

lemma failure_reports_simps:
  "failure_reports [] = []"
  "failure_reports ((p, Inl e) # rest) = ErrorProcessing p e # failure_reports rest"
  "failure_reports ((p, Inr u) # rest) = failure_reports rest"
  by (simp_all add: failure_reports_def)

lemma succeeded_simps:
  "succeeded (p, Inl e) = False" "succeeded (p, Inr u) = True"
  by (simp_all add: succeeded_def)

lemma driver_lines_errors:
  "filter is_error_message (driver_lines n c outcomes) = failure_reports outcomes"
  by (induction n c outcomes rule: driver_lines.induct)
     (simp_all add: failure_reports_simps is_error_message_def)

lemma batch_loop_run_files:
  assumes "run_files K ho lo (map snd files) w = (outcomes, w_end)"
  shows "batch_loop K ho lo n files c (w\<lparr>stdout := s\<rparr>)
           = (c + length (filter succeeded outcomes),
              w_end\<lparr>stdout := s @ driver_lines n c outcomes\<rparr>)"
  using assms
proof (induction files arbitrary: w outcomes w_end c s)
  case Nil
  then show ?case by simp
next
  case (Cons f files)
  obtain hr_name hr_path where f: "f = (hr_name, hr_path)" by (cases f)
  obtain r w1 where p: "process_generate_mode K hr_path ho lo PATCHES_PER_IMAGE RANDOM_CROP w = (r, w1)"
    by (cases "process_generate_mode K hr_path ho lo PATCHES_PER_IMAGE RANDOM_CROP w")
  obtain outs w2 where rf: "run_files K ho lo (map snd files) w1 = (outs, w2)"
    by (cases "run_files K ho lo (map snd files) w1")
  have o: "outcomes = (hr_path, r) # outs" and w_end: "w_end = w2"
    using Cons.prems f p rf by simp_all
  have ps: "process_generate_mode K hr_path ho lo PATCHES_PER_IMAGE RANDOM_CROP (w\<lparr>stdout := s\<rparr>)
              = (r, w1\<lparr>stdout := s\<rparr>)"
    by (simp add: process_generate_mode_stdout p)
  show ?case
  proof (cases r)
    case (Inl e)
    have "batch_loop K ho lo n (f # files) c (w\<lparr>stdout := s\<rparr>)
            = batch_loop K ho lo n files c (w1\<lparr>stdout := s @ [ErrorProcessing hr_path e]\<rparr>)"
      using ps Inl by (simp add: f print_def)
    also have "\<dots> = (c + length (filter succeeded outs),
                      w2\<lparr>stdout := (s @ [ErrorProcessing hr_path e]) @ driver_lines n c outs\<rparr>)"
      by (rule Cons.IH[OF rf])
    finally show ?thesis using Inl by (simp add: o w_end succeeded_simps)
  next
    case (Inr u)
    let ?l = "if (c + 1) mod 20 = 0 then [Progress (c + 1) n] else []"
    have "batch_loop K ho lo n (f # files) c (w\<lparr>stdout := s\<rparr>)
            = batch_loop K ho lo n files (c + 1) (w1\<lparr>stdout := s @ ?l\<rparr>)"
      using ps Inr by (simp add: f print_def Let_def)
    also have "\<dots> = (c + 1 + length (filter succeeded outs),
                      w2\<lparr>stdout := (s @ ?l) @ driver_lines n (c + 1) outs\<rparr>)"
      by (rule Cons.IH[OF rf])
    finally show ?thesis using Inr by (simp add: o w_end succeeded_simps)
  qed
qed

text \<open>
  Claim C8. Where the two output directories can be made, \<open>batch_process\<close> in generate mode
  completes normally whatever fails inside the per-image processing. Every discovered file
  is handed to generate mode, in the order of the mapping, each in the world that the files
  before it left behind (\<open>run_files\<close>): a failure does not keep the remaining files from
  being processed, and their effects on the files, on the saved images and on the random
  source are those of the isolated runs. The lines printed between the header and the
  summary are those of \<open>driver_lines\<close>; the error lines among them are exactly one line,
  with path and error, for each failing file, in order; and the summary reports the number
  of files whose processing succeeded.
\<close>

theorem batch_process_isolates_failures:
  assumes "makedirs (path_join output_folder ''hr'') w = (Inr (), w0)"
    and "makedirs (path_join output_folder ''lr'') w0 = (Inr (), w1)"
  shows "\<exists>w' outcomes w_end.
      batch_process K hr_folder output_folder ''generate'' w = (Inr (), w')
    \<and> run_files K (path_join output_folder ''hr'') (path_join output_folder ''lr'')
         (map snd (get_all_image_files w hr_folder)) w1
       = (outcomes, w_end)
    \<and> map fst outcomes = map snd (get_all_image_files w hr_folder)
    \<and> stdout w' = stdout w
         @ [Found (length outcomes), ModeGenerate]
         @ driver_lines (length outcomes) 0 outcomes
         @ [Finished (length (filter succeeded outcomes)),
            OutputHR (path_join output_folder ''hr''), OutputLR (path_join output_folder ''lr'')]
    \<and> filter is_error_message (driver_lines (length outcomes) 0 outcomes) = failure_reports outcomes
    \<and> saved w' = saved w_end \<and> fs w' = fs w_end \<and> random w' = random w_end"
proof -
  let ?ho = "path_join output_folder ''hr''" and ?lo = "path_join output_folder ''lr''"
  let ?files = "get_all_image_files w hr_folder"
  have f0: "entries w0 = entries w" "stdout w0 = stdout w"
    using makedirs_frame[of ?ho w] assms(1) by simp_all
  have f1: "entries w1 = entries w" "stdout w1 = stdout w"
    using makedirs_frame[of ?lo w0] assms(2) f0 by simp_all
  obtain outcomes w_end where rf: "run_files K ?ho ?lo (map snd ?files) w1 = (outcomes, w_end)"
    by (cases "run_files K ?ho ?lo (map snd ?files) w1")
  have paths: "map fst outcomes = map snd ?files" by (rule run_files_paths[OF rf])
  then have len: "length outcomes = length ?files" by (metis length_map)
  have gf: "get_all_image_files w1 hr_folder = ?files"
    by (rule get_all_image_files_entries[OF f1(1)])
  let ?s = "stdout w @ [Found (length ?files), ModeGenerate]"
  have start: "print ModeGenerate (print (Found (length ?files)) w1) = w1\<lparr>stdout := ?s\<rparr>"
    by (simp add: print_def f1(2))
  have loop: "batch_loop K ?ho ?lo (length ?files) ?files 0 (w1\<lparr>stdout := ?s\<rparr>)
        = (0 + length (filter succeeded outcomes),
           w_end\<lparr>stdout := ?s @ driver_lines (length ?files) 0 outcomes\<rparr>)"
    by (rule batch_loop_run_files[OF rf])
  define w' where "w' = print (OutputLR ?lo) (print (OutputHR ?ho)
      (print (Finished (length (filter succeeded outcomes)))
         (w_end\<lparr>stdout := ?s @ driver_lines (length ?files) 0 outcomes\<rparr>)))"
  have a: "batch_process K hr_folder output_folder ''generate'' w = (Inr (), w')"
    unfolding batch_process_def Let_def assms prod.case sum.case gf start w'_def
    using loop by simp
  have b: "stdout w' = stdout w
         @ [Found (length outcomes), ModeGenerate]
         @ driver_lines (length outcomes) 0 outcomes
         @ [Finished (length (filter succeeded outcomes)), OutputHR ?ho, OutputLR ?lo]"
    by (simp add: w'_def print_def len)
  have c: "saved w' = saved w_end" "fs w' = fs w_end" "random w' = random w_end"
    by (simp_all add: w'_def print_def)
  show ?thesis
    by (rule exI[of _ w'], rule exI[of _ outcomes], rule exI[of _ w_end])
       (intro conjI a rf paths b driver_lines_errors c)
qed

subsection \<open>The run of the specification: three files, the second undecodable\<close>

lemma save_frame:
  "unwritable (snd (save path img w)) = unwritable w"
  "q \<noteq> path \<Longrightarrow> fs (snd (save path img w)) q = fs w q"
  by (simp_all add: save_def)

lemma generate_patch_frame:
  "unwritable (snd (generate_patch K img hr_path ho lo rc i w)) = unwritable w"
  "q \<noteq> path_join ho (stem hr_path @ ''_p'' @ fmt_03d i @ ''.png'') \<Longrightarrow>
   q \<noteq> path_join lo (stem hr_path @ ''_p'' @ fmt_03d i @ ''.png'') \<Longrightarrow>
   fs (snd (generate_patch K img hr_path ho lo rc i w)) q = fs w q"
  unfolding generate_patch_def Let_def
  by (auto simp: save_def split: prod.splits sum.splits if_splits)

lemma generate_patches_frame:
  "unwritable (snd (generate_patches K img hr_path ho lo rc idx w)) = unwritable w
   \<and> ((\<forall>i\<in>set idx. q \<noteq> path_join ho (stem hr_path @ ''_p'' @ fmt_03d i @ ''.png'')
                  \<and> q \<noteq> path_join lo (stem hr_path @ ''_p'' @ fmt_03d i @ ''.png''))
        \<longrightarrow> fs (snd (generate_patches K img hr_path ho lo rc idx w)) q = fs w q)"
proof (induction idx arbitrary: w)
  case Nil
  show ?case by simp
next
  case (Cons i idx)
  obtain r w1 where g: "generate_patch K img hr_path ho lo rc i w = (r, w1)"
    by (cases "generate_patch K img hr_path ho lo rc i w")
  have u1: "unwritable w1 = unwritable w"
    using generate_patch_frame(1)[of K img hr_path ho lo rc i w] g by simp
  have f1: "q \<noteq> path_join ho (stem hr_path @ ''_p'' @ fmt_03d i @ ''.png'') \<Longrightarrow>
            q \<noteq> path_join lo (stem hr_path @ ''_p'' @ fmt_03d i @ ''.png'') \<Longrightarrow> fs w1 q = fs w q"
    using generate_patch_frame(2)[of q ho hr_path i lo K img rc w] g by simp
  show ?case
  proof (cases r)
    case (Inl e)
    then show ?thesis using g u1 f1 by simp
  next
    case (Inr u)
    then show ?thesis using g u1 f1 Cons.IH[of w1] by simp
  qed
qed

lemma process_generate_mode_frame:
  "unwritable (snd (process_generate_mode K hr_path ho lo n rc w)) = unwritable w"
  "(\<forall>i < nat n. q \<noteq> path_join ho (stem hr_path @ ''_p'' @ fmt_03d i @ ''.png'')
               \<and> q \<noteq> path_join lo (stem hr_path @ ''_p'' @ fmt_03d i @ ''.png''))
   \<Longrightarrow> fs (snd (process_generate_mode K hr_path ho lo n rc w)) q = fs w q"
  using generate_patches_frame[of K _ hr_path ho lo rc "[0 ..< nat n]" w q]
  by (auto simp: process_generate_mode_def split: sum.splits)

lemma process_generate_mode_corrupt:
  assumes "fs w hr_path = Some CorruptFile"
  shows "process_generate_mode K hr_path ho lo n rc w = (Inl (UnidentifiedImageError hr_path), w)"
  using assms by (simp add: process_generate_mode_def open_rgb_def)

lemma process_generate_mode_succeeds:
  assumes "fs w hr_path = Some (ImageFile img0)" "0 < width img0" "0 < height img0"
    and "\<forall>i < nat n.
             \<not> unwritable w (path_join ho (stem hr_path @ ''_p'' @ fmt_03d i @ ''.png''))
           \<and> \<not> unwritable w (path_join lo (stem hr_path @ ''_p'' @ fmt_03d i @ ''.png''))"
  shows "fst (process_generate_mode K hr_path ho lo n rc w) = Inr ()"
proof -
  from ensure_min_size_succeeds[OF assms(2,3), of K MIN_HR_DIM] obtain img where
    e: "ensure_min_size K img0 MIN_HR_DIM = Inr img" by blast
  have o: "open_rgb hr_path w = Inr img0" using assms(1) by (simp add: open_rgb_def)
  have "\<forall>i\<in>set [0 ..< nat n].
             \<not> unwritable w (path_join ho (stem hr_path @ ''_p'' @ fmt_03d i @ ''.png''))
           \<and> \<not> unwritable w (path_join lo (stem hr_path @ ''_p'' @ fmt_03d i @ ''.png''))"
    using assms(4) by simp
  from generate_patches_ok[OF this, of K img rc] obtain w' where
    "generate_patches K img hr_path ho lo rc [0 ..< nat n] w = (Inr (), w')" by blast
  then show ?thesis using o e by (simp add: process_generate_mode_def)
qed

lemma sample_in_files:
  "get_all_image_files sample_world ''in''
     = [(''a'', ''in/a.jpg''), (''b'', ''in/b.jpg''), (''c'', ''in/c.jpg'')]"
  by (simp add: get_all_image_files_def enumerate_files_def glob_def exts_def sample_world_def
        path_join_def stem_def path_name_def rfind_dot_def Let_def)

lemma sample_stems: "stem ''in/a.jpg'' = ''a''" "stem ''in/c.jpg'' = ''c''"
  by (simp_all add: stem_def path_name_def rfind_dot_def Let_def)

lemma path_join_relative:
  "c \<noteq> CHR ''/'' \<Longrightarrow> a \<noteq> [] \<Longrightarrow> last a \<noteq> CHR ''/'' \<Longrightarrow>
   path_join a (c # x) = a @ ''/'' @ c # x"
  by (simp add: path_join_def)

lemma sample_out_names:
  "path_join ''out'' ''hr'' = ''out/hr''" "path_join ''out'' ''lr'' = ''out/lr''"
  by (simp_all add: path_join_def)

theorem batch_process_isolates_failures_witness:
  "\<exists>w'. batch_process flat_kernel ''in'' ''out'' ''generate'' sample_world = (Inr (), w')
      \<and> stdout w' = [Found 3, ModeGenerate,
                      ErrorProcessing ''in/b.jpg'' (UnidentifiedImageError ''in/b.jpg''),
                      Finished 2, OutputHR ''out/hr'', OutputLR ''out/lr'']"
proof -
  define w0 where
    "w0 = sample_world\<lparr>dirs := insert ''out/hr'' (set (ancestors ''out/hr'') \<union> dirs sample_world)\<rparr>"
  define w1 where "w1 = w0\<lparr>dirs := insert ''out/lr'' (set (ancestors ''out/lr'') \<union> dirs w0)\<rparr>"
  define wa where
    "wa = snd (process_generate_mode flat_kernel ''in/a.jpg'' ''out/hr'' ''out/lr'' 6 True w1)"
  define wc where
    "wc = snd (process_generate_mode flat_kernel ''in/c.jpg'' ''out/hr'' ''out/lr'' 6 True wa)"
  have m0: "makedirs (path_join ''out'' ''hr'') sample_world = (Inr (), w0)"
    by (simp add: sample_out_names makedirs_def sample_makedirs w0_def)
  have "makedirs_error w0 ''out/lr'' = None"
    using makedirs_error_frame[of w0 sample_world "''out/lr''"] sample_makedirs(2)
    by (simp add: w0_def)
  then have m1: "makedirs (path_join ''out'' ''lr'') w0 = (Inr (), w1)"
    by (simp add: sample_out_names makedirs_def w1_def)
  have w1: "unwritable w1 = (\<lambda>p. False)"
    "fs w1 ''in/a.jpg'' = Some (ImageFile (solid_image 500 500 (1, 2, 3)))"
    "fs w1 ''in/b.jpg'' = Some CorruptFile"
    "fs w1 ''in/c.jpg'' = Some (ImageFile (solid_image 200 300 (4, 5, 6)))"
    by (simp_all add: w1_def w0_def sample_world_def)
  have ra: "fst (process_generate_mode flat_kernel ''in/a.jpg'' ''out/hr'' ''out/lr'' 6 True w1) = Inr ()"
    by (rule process_generate_mode_succeeds[OF w1(2)]) (simp_all add: solid_image_def w1(1))
  have ua: "unwritable wa = (\<lambda>p. False)"
    unfolding wa_def by (simp add: process_generate_mode_frame(1) w1(1))
  have fb: "fs wa ''in/b.jpg'' = Some CorruptFile"
    unfolding wa_def
    by (subst process_generate_mode_frame(2)) (simp_all add: sample_stems path_join_relative w1(3))
  have fc: "fs wa ''in/c.jpg'' = Some (ImageFile (solid_image 200 300 (4, 5, 6)))"
    unfolding wa_def
    by (subst process_generate_mode_frame(2)) (simp_all add: sample_stems path_join_relative w1(4))
  have rb: "process_generate_mode flat_kernel ''in/b.jpg'' ''out/hr'' ''out/lr'' 6 True wa
              = (Inl (UnidentifiedImageError ''in/b.jpg''), wa)"
    by (rule process_generate_mode_corrupt[OF fb])
  have rc: "fst (process_generate_mode flat_kernel ''in/c.jpg'' ''out/hr'' ''out/lr'' 6 True wa) = Inr ()"
    by (rule process_generate_mode_succeeds[OF fc]) (simp_all add: solid_image_def ua)
  have pa: "process_generate_mode flat_kernel ''in/a.jpg'' ''out/hr'' ''out/lr'' 6 True w1 = (Inr (), wa)"
    using ra unfolding wa_def by (simp add: prod_eq_iff)
  have pc: "process_generate_mode flat_kernel ''in/c.jpg'' ''out/hr'' ''out/lr'' 6 True wa = (Inr (), wc)"
    using rc unfolding wc_def by (simp add: prod_eq_iff)
  have run: "run_files flat_kernel ''out/hr'' ''out/lr'' [''in/a.jpg'', ''in/b.jpg'', ''in/c.jpg''] w1
          = ([(''in/a.jpg'', Inr ()), (''in/b.jpg'', Inl (UnidentifiedImageError ''in/b.jpg'')),
              (''in/c.jpg'', Inr ())], wc)"
    by (simp add: PATCHES_PER_IMAGE_def RANDOM_CROP_def pa rb pc)
  from batch_process_isolates_failures [OF m0 m1, of flat_kernel "''in''"]
  obtain w' outcomes w_end where
    b: "batch_process flat_kernel ''in'' ''out'' ''generate'' sample_world = (Inr (), w')"
    and r: "run_files flat_kernel (path_join ''out'' ''hr'') (path_join ''out'' ''lr'')
         (map snd (get_all_image_files sample_world ''in'')) w1
       = (outcomes, w_end)"
    and s: "stdout w' = stdout sample_world
         @ [Found (length outcomes), ModeGenerate]
         @ driver_lines (length outcomes) 0 outcomes
         @ [Finished (length (filter succeeded outcomes)),
            OutputHR (path_join ''out'' ''hr''), OutputLR (path_join ''out'' ''lr'')]"
    by blast
  have "outcomes = [(''in/a.jpg'', Inr ()), (''in/b.jpg'', Inl (UnidentifiedImageError ''in/b.jpg'')),
              (''in/c.jpg'', Inr ())]"
    using r run unfolding sample_in_files sample_out_names by simp
  then have "stdout w' = [Found 3, ModeGenerate,
                      ErrorProcessing ''in/b.jpg'' (UnidentifiedImageError ''in/b.jpg''),
                      Finished 2, OutputHR ''out/hr'', OutputLR ''out/lr'']"
    using s by (simp add: sample_out_names succeeded_simps sample_world_def)
  then show ?thesis using b by blast
qed

end
